theory Spec2Isabelle
  imports Complex_Main
begin

section \<open>Rate limiter (src/lib/rate-limit.ts)\<close>

text \<open>
  Times are the integer milliseconds of \<^verbatim>\<open>Date.now()\<close>. The class keeps a
  \<^verbatim>\<open>Map<string, RateLimitInfo>\<close>; every method that reads the clock takes the
  reading as its argument \<open>now\<close> and returns the updated map.
\<close>

record RateLimitConfig =
  windowMs :: int
  maxRequests :: int

record RateLimitInfo =
  requests :: "int list"
  lastReset :: int

type_synonym clients = "string \<rightharpoonup> RateLimitInfo"

record RateLimitResult =
  allowed :: bool
  remaining :: int
  resetTime :: int

definition isAllowed :: "RateLimitConfig \<Rightarrow> int \<Rightarrow> string \<Rightarrow> clients \<Rightarrow> RateLimitResult \<times> clients" where
  "isAllowed config now clientId cls =
     (let windowStart = now - windowMs config;
          clientInfo = (case cls clientId of
                          None \<Rightarrow> \<lparr>requests = [], lastReset = now\<rparr>
                        | Some info \<Rightarrow> info);
          kept = filter (\<lambda>time. time > windowStart) (requests clientInfo);
          currentRequests = int (length kept);
          isOk = (currentRequests < maxRequests config);
          reqs = (if isOk then kept @ [now] else kept);
          remain = max 0 (maxRequests config - int (length reqs));
          reset = windowStart + windowMs config
      in (\<lparr>allowed = isOk, remaining = remain, resetTime = reset\<rparr>,
          cls(clientId \<mapsto> clientInfo\<lparr>requests := reqs\<rparr>)))"

definition reset :: "string \<Rightarrow> clients \<Rightarrow> clients" where
  "reset clientId cls = cls(clientId := None)"

definition cleanup :: "RateLimitConfig \<Rightarrow> int \<Rightarrow> clients \<Rightarrow> clients" where
  "cleanup config now cls =
     (let cutoff = now - windowMs config * 2
      in (\<lambda>clientId. case cls clientId of
                         None \<Rightarrow> None
                       | Some info \<Rightarrow> if lastReset info < cutoff then None else Some info))"

text \<open>The limiter of the generation endpoint: 5 requests per minute.\<close>

definition generation_config :: RateLimitConfig where
  "generation_config = \<lparr>windowMs = 60 * 1000, maxRequests = 5\<rparr>"

text \<open>A run of calls by one client at the given clock readings, from an empty map;
  the result lists the admission decisions in call order.\<close>

fun calls :: "RateLimitConfig \<Rightarrow> string \<Rightarrow> int list \<Rightarrow> clients \<Rightarrow> bool list \<times> clients" where
  "calls config clientId [] cls = ([], cls)"
| "calls config clientId (now # ts) cls =
     (let (r, cls') = isAllowed config now clientId cls;
          (rs, cls'') = calls config clientId ts cls'
      in (allowed r # rs, cls''))"

section \<open>Memory cache (src/lib/cache.ts)\<close>

record 'v CacheItem =
  data :: 'v
  timestamp :: int
  ttl :: int

type_synonym 'v cache = "string \<rightharpoonup> 'v CacheItem"

definition defaultTTL :: int where
  "defaultTTL = 5 * 60 * 1000"

definition cache_set :: "int \<Rightarrow> string \<Rightarrow> 'v \<Rightarrow> int \<Rightarrow> 'v cache \<Rightarrow> 'v cache" where
  "cache_set now key d t c = c(key \<mapsto> \<lparr>data = d, timestamp = now, ttl = t\<rparr>)"

definition cache_get :: "int \<Rightarrow> string \<Rightarrow> 'v cache \<Rightarrow> 'v option \<times> 'v cache" where
  "cache_get now key c =
     (case c key of
        None \<Rightarrow> (None, c)
      | Some item \<Rightarrow>
          if now - timestamp item > ttl item then (None, c(key := None))
          else (Some (data item), c))"

definition cache_has :: "int \<Rightarrow> string \<Rightarrow> 'v cache \<Rightarrow> bool \<times> 'v cache" where
  "cache_has now key c =
     (case c key of
        None \<Rightarrow> (False, c)
      | Some item \<Rightarrow>
          if now - timestamp item > ttl item then (False, c(key := None))
          else (True, c))"

definition cache_delete :: "string \<Rightarrow> 'v cache \<Rightarrow> bool \<times> 'v cache" where
  "cache_delete key c = (c key \<noteq> None, c(key := None))"

definition cache_cleanup :: "int \<Rightarrow> 'v cache \<Rightarrow> 'v cache" where
  "cache_cleanup now c =
     (\<lambda>key. case c key of
               None \<Rightarrow> None
             | Some item \<Rightarrow> if now - timestamp item > ttl item then None else Some item)"


section \<open>Errors\<close>

text \<open>
  The error classes of src/lib/types.ts (\<^verbatim>\<open>ValidationError\<close>, \<^verbatim>\<open>DatabaseError\<close>,
  \<^verbatim>\<open>GeminiError\<close>), and \<open>Error\<close> for every other thrown value (a \<^verbatim>\<open>SyntaxError\<close>
  of \<^verbatim>\<open>JSON.parse\<close>, an error of the SQLite driver). A function that can throw
  returns \<open>exn + 'a\<close>. The message of an error that the platform throws is not
  fixed by the repository; the model writes the kind of the error in its place.
\<close>

datatype exn = ValidationError string | GeminiError string | DatabaseError string | Error string

text \<open>
  Modelled from the spec: \<^verbatim>\<open>getErrorMessage\<close> is imported from src/lib/utils.ts, which
  is not among the source files. The spec records a failed title with the message of
  the error, so the function returns the message of the error object.
\<close>

fun getErrorMessage :: "exn \<Rightarrow> string" where
  "getErrorMessage (ValidationError m) = m"
| "getErrorMessage (GeminiError m) = m"
| "getErrorMessage (DatabaseError m) = m"
| "getErrorMessage (Error m) = m"

section \<open>Persistence (src/lib/database.ts)\<close>

text \<open>
  \<open>Question\<close> is the TypeScript type inferred from \<^verbatim>\<open>QuestionSchema\<close>; the type carries
  the shapes of the fields, not the schema's length bounds. \<open>difficulty\<close> is a string
  here so that the table's CHECK constraint can be modelled. \<open>DatabaseQuestion\<close> is a
  row of the table \<^verbatim>\<open>questions\<close>.
\<close>

record Example =
  ex_input :: string
  ex_output :: string
  ex_explanation :: string

record Question =
  q_id :: string
  q_title :: string
  q_difficulty :: string
  q_topics :: "string list"
  q_description :: string
  q_example :: Example
  q_solution_python :: string
  q_step_by_step_explanation :: "string list"
  q_pseudocode :: "string list option"
  q_created_at :: string
  q_updated_at :: "string option"

record DatabaseQuestion =
  row_id :: string
  row_title :: string
  row_difficulty :: string
  row_topics :: string
  row_description :: string
  row_example :: string
  row_solution_python :: string
  row_step_by_step_explanation :: string
  row_pseudocode :: "string option"
  row_created_at :: string
  row_updated_at :: "string option"

text \<open>
  \<^verbatim>\<open>JSON.stringify\<close> and \<^verbatim>\<open>JSON.parse\<close> belong to the platform. They are a parameter
  of the model, at the two types database.ts uses them at; \<open>None\<close> is a thrown
  \<^verbatim>\<open>SyntaxError\<close>.
\<close>

record JSON =
  stringify_list :: "string list \<Rightarrow> string"
  parse_list :: "string \<Rightarrow> string list option"
  stringify_example :: "Example \<Rightarrow> string"
  parse_example :: "string \<Rightarrow> Example option"

text \<open>
  The table is the list of its rows. \<^verbatim>\<open>INSERT OR REPLACE\<close> with
  \<^verbatim>\<open>id TEXT PRIMARY KEY\<close> and \<^verbatim>\<open>UNIQUE(title) ON CONFLICT REPLACE\<close> deletes the rows
  with the same id or the same title and appends the new row; a row whose difficulty
  fails the CHECK constraint aborts the statement.
\<close>

type_synonym questions_table = "DatabaseQuestion list"

definition statements_insert :: "DatabaseQuestion \<Rightarrow> questions_table \<Rightarrow> exn + questions_table" where
  "statements_insert r tbl =
     (if row_difficulty r \<notin> {''Easy'', ''Medium'', ''Hard''}
      then Inl (Error ''CHECK constraint failed'')
      else Inr (filter (\<lambda>x. row_id x \<noteq> row_id r \<and> row_title x \<noteq> row_title r) tbl @ [r]))"

definition statements_selectById :: "string \<Rightarrow> questions_table \<Rightarrow> DatabaseQuestion option" where
  "statements_selectById i tbl = find (\<lambda>x. row_id x = i) tbl"

definition convertDbToQuestion :: "JSON \<Rightarrow> DatabaseQuestion \<Rightarrow> exn + Question" where
  "convertDbToQuestion J row =
     (case parse_list J (row_topics row) of
        None \<Rightarrow> Inl (DatabaseError (''Failed to parse question data: '' @ ''SyntaxError''))
      | Some tps \<Rightarrow>
     (case parse_example J (row_example row) of
        None \<Rightarrow> Inl (DatabaseError (''Failed to parse question data: '' @ ''SyntaxError''))
      | Some ex \<Rightarrow>
     (case parse_list J (row_step_by_step_explanation row) of
        None \<Rightarrow> Inl (DatabaseError (''Failed to parse question data: '' @ ''SyntaxError''))
      | Some steps \<Rightarrow>
     (case (case row_pseudocode row of
              None \<Rightarrow> Some None
            | Some p \<Rightarrow> if p = [] then Some None else map_option Some (parse_list J p)) of
        None \<Rightarrow> Inl (DatabaseError (''Failed to parse question data: '' @ ''SyntaxError''))
      | Some pc \<Rightarrow>
          Inr \<lparr>q_id = row_id row,
               q_title = row_title row,
               q_difficulty = row_difficulty row,
               q_topics = tps,
               q_description = row_description row,
               q_example = ex,
               q_solution_python = row_solution_python row,
               q_step_by_step_explanation = steps,
               q_pseudocode = pc,
               q_created_at = row_created_at row,
               q_updated_at = (case row_updated_at row of
                               None \<Rightarrow> None
                             | Some u \<Rightarrow> if u = [] then None else Some u)\<rparr>))))"

definition saveQuestion :: "JSON \<Rightarrow> string \<Rightarrow> Question \<Rightarrow> questions_table \<Rightarrow> exn + questions_table" where
  "saveQuestion J now question tbl =
     (case statements_insert
             \<lparr>row_id = q_id question,
              row_title = q_title question,
              row_difficulty = q_difficulty question,
              row_topics = stringify_list J (q_topics question),
              row_description = q_description question,
              row_example = stringify_example J (q_example question),
              row_solution_python = q_solution_python question,
              row_step_by_step_explanation = stringify_list J (q_step_by_step_explanation question),
              row_pseudocode = (case q_pseudocode question of
                                  None \<Rightarrow> None
                                | Some p \<Rightarrow> Some (stringify_list J p)),
              row_created_at = q_created_at question,
              row_updated_at = Some now\<rparr> tbl of
        Inl e \<Rightarrow> Inl (DatabaseError (''Failed to save question: '' @ getErrorMessage e))
      | Inr tbl' \<Rightarrow> Inr tbl')"

definition getQuestion :: "JSON \<Rightarrow> string \<Rightarrow> questions_table \<Rightarrow> exn + Question option" where
  "getQuestion J i tbl =
     (if i = [] then Inr None
      else (case statements_selectById i tbl of
              None \<Rightarrow> Inr None
            | Some row \<Rightarrow>
                (case convertDbToQuestion J row of
                   Inl e \<Rightarrow> Inl (DatabaseError (''Failed to get question: '' @ getErrorMessage e))
                 | Inr q \<Rightarrow> Inr (Some q))))"


text \<open>
  An instance of the JSON interface, used where a concrete run is evaluated: arrays of
  strings and the example object, printed without white space, with \<^verbatim>\<open>"\<close> and
  \<^verbatim>\<open>\\<close> escaped by a backslash.
\<close>

datatype json_token = Punct char | Str string

fun json_lex :: "bool \<Rightarrow> bool \<Rightarrow> string \<Rightarrow> string \<Rightarrow> json_token list option" where
  "json_lex False esc cur [] = Some []"
| "json_lex True esc cur [] = None"
| "json_lex False esc cur (c # r) =
     (if c = CHR 0x22 then json_lex True False [] r
      else if c \<in> set ''[]{},:'' then map_option (Cons (Punct c)) (json_lex False False [] r)
      else None)"
| "json_lex True False cur (c # r) =
     (if c = CHR 0x22 then map_option (Cons (Str cur)) (json_lex False False [] r)
      else if c = CHR 0x5C then json_lex True True cur r
      else json_lex True False (cur @ [c]) r)"
| "json_lex True True cur (c # r) =
     (if c = CHR 0x22 \<or> c = CHR 0x5C then json_lex True False (cur @ [c]) r else None)"

definition json_quote :: "string \<Rightarrow> string" where
  "json_quote s = CHR 0x22 # concat (map (\<lambda>c. if c = CHR 0x22 \<or> c = CHR 0x5C then [CHR 0x5C, c] else [c]) s) @ [CHR 0x22]"

fun json_commas :: "string list \<Rightarrow> string" where
  "json_commas [] = []"
| "json_commas [x] = x"
| "json_commas (x # y # zs) = x @ '','' @ json_commas (y # zs)"

fun json_items :: "json_token list \<Rightarrow> string list option" where
  "json_items [Str s, Punct c] = (if c = CHR '']'' then Some [s] else None)"
| "json_items (Str s # Punct c # ts) = (if c = CHR '','' then map_option (Cons s) (json_items ts) else None)"
| "json_items ts = None"

definition plain_JSON :: JSON where
  "plain_JSON =
     \<lparr>stringify_list = (\<lambda>xs. ''['' @ json_commas (map json_quote xs) @ '']''),
      parse_list = (\<lambda>s. case json_lex False False [] s of
                          Some [Punct a, Punct b] \<Rightarrow> if a = CHR ''['' \<and> b = CHR '']'' then Some [] else None
                        | Some (Punct a # ts) \<Rightarrow> if a = CHR ''['' then json_items ts else None
                        | _ \<Rightarrow> None),
      stringify_example = (\<lambda>e. ''{'' @ json_quote ''input'' @ '':'' @ json_quote (ex_input e) @ '','' @
                                 json_quote ''output'' @ '':'' @ json_quote (ex_output e) @ '','' @
                                 json_quote ''explanation'' @ '':'' @ json_quote (ex_explanation e) @ ''}''),
      parse_example = (\<lambda>s. case json_lex False False [] s of
                          Some [Punct a, Str k1, Punct b, Str v1, Punct c, Str k2, Punct d, Str v2,
                                Punct e, Str k3, Punct f, Str v3, Punct g] \<Rightarrow>
                            if [a, b, c, d, e, f, g] = ''{:,:,:}'' \<and>
                               [k1, k2, k3] = [''input'', ''output'', ''explanation'']
                            then Some \<lparr>ex_input = v1, ex_output = v2, ex_explanation = v3\<rparr>
                            else None
                        | _ \<Rightarrow> None)\<rparr>"

definition sample_question :: Question where
  "sample_question =
     \<lparr>q_id = ''q1'',
      q_title = ''Check if a number is even or odd'',
      q_difficulty = ''Easy'',
      q_topics = [''math'', ''modulo''],
      q_description = ''Decide whether an integer is even or odd.'',
      q_example = \<lparr>ex_input = ''4'', ex_output = ''even'', ex_explanation = ''4 % 2 == 0''\<rparr>,
      q_solution_python = ''def f(n): return n % 2 == 0'',
      q_step_by_step_explanation = [''take n modulo 2'', ''compare with 0''],
      q_pseudocode = Some [''r <- n mod 2'', ''return r = 0''],
      q_created_at = ''2024-01-01T00:00:00.000Z'',
      q_updated_at = None\<rparr>"

section \<open>Response parser (src/lib/gemini.ts)\<close>

text \<open>
  A decoded JSON value, and a JavaScript object as a map from property names to
  values: a property that is absent, or holds \<^verbatim>\<open>undefined\<close>, is \<open>None\<close>.
\<close>

datatype json =
    JNull
  | JBool bool
  | JNum real
  | JStr string
  | JArr "json list"
  | JObj "(string \<times> json) list"

type_synonym obj = "string \<rightharpoonup> json"

text \<open>JavaScript truthiness (\<^verbatim>\<open>!x\<close> is its negation) and \<^verbatim>\<open>Array.isArray\<close>.\<close>

fun truthy :: "json option \<Rightarrow> bool" where
  "truthy None = False"
| "truthy (Some JNull) = False"
| "truthy (Some (JBool b)) = b"
| "truthy (Some (JNum n)) = (n \<noteq> 0)"
| "truthy (Some (JStr s)) = (s \<noteq> [])"
| "truthy (Some (JArr xs)) = True"
| "truthy (Some (JObj kvs)) = True"

fun isArray :: "json option \<Rightarrow> bool" where
  "isArray (Some (JArr xs)) = True"
| "isArray v = False"

text \<open>
  Strings are lists of code units below 256. The white space of \<^verbatim>\<open>trim()\<close> and of
  the regular expression class \<^verbatim>\<open>\s\<close> in that range: tab, line feed, vertical tab,
  form feed, carriage return, space and the no-break space U+00A0. The white space
  above 255 (U+FEFF, U+2028 and others) has no character in this type.
\<close>

definition is_space :: "char \<Rightarrow> bool" where
  "is_space c = (c \<in> {CHR 0x09, CHR 0x0A, CHR 0x0B, CHR 0x0C, CHR 0x0D, CHR 0x20, CHR 0xA0})"

definition trim :: "string \<Rightarrow> string" where
  "trim s = rev (dropWhile is_space (rev (dropWhile is_space s)))"

text \<open>
  \<^verbatim>\<open>cleanedText.match(/\{[\s\S]*\}/)\<close>: the match starts at the first \<^verbatim>\<open>{\<close> and, the
  star being greedy, ends at the last \<^verbatim>\<open>}\<close> after it. \<open>upto_last c s\<close> is the longest
  prefix of \<open>s\<close> that ends in \<open>c\<close>.
\<close>

fun upto_last :: "char \<Rightarrow> string \<Rightarrow> string option" where
  "upto_last c [] = None"
| "upto_last c (x # xs) =
     (case upto_last c xs of
        Some m \<Rightarrow> Some (x # m)
      | None \<Rightarrow> if x = c then Some [x] else None)"

definition match_braces :: "string \<Rightarrow> string option" where
  "match_braces s =
     (case dropWhile (\<lambda>c. c \<noteq> CHR ''{'') s of
        [] \<Rightarrow> None
      | b # rest \<Rightarrow> map_option (Cons b) (upto_last CHR ''}'' rest))"

text \<open>
  \<^verbatim>\<open>cleanedText.match(/```(?:json)?\s*(\{[\s\S]*\})\s*```/)\<close>, of which the code reads
  group 1. \<open>strip_prefix p s\<close> removes the literal \<open>p\<close> from the front of \<open>s\<close>;
  \<open>fence_tail\<close> matches \<^verbatim>\<open>\s*```\<close> at the front; \<open>last_close\<close> finds, after the
  opening brace, the longest text ending in a \<^verbatim>\<open>}\<close> that \<^verbatim>\<open>\s*```\<close> follows;
  \<open>fence_at\<close> is the match anchored at the front, trying the optional \<^verbatim>\<open>json\<close> first;
  \<open>match_fenced\<close> tries the start positions from left to right.
\<close>

fun strip_prefix :: "string \<Rightarrow> string \<Rightarrow> string option" where
  "strip_prefix [] s = Some s"
| "strip_prefix (p # ps) [] = None"
| "strip_prefix (p # ps) (x # xs) = (if p = x then strip_prefix ps xs else None)"

definition fence_tail :: "string \<Rightarrow> bool" where
  "fence_tail s = (strip_prefix ''```'' (dropWhile is_space s) \<noteq> None)"

fun last_close :: "string \<Rightarrow> string option" where
  "last_close [] = None"
| "last_close (x # xs) =
     (case last_close xs of
        Some m \<Rightarrow> Some (x # m)
      | None \<Rightarrow> if x = CHR ''}'' \<and> fence_tail xs then Some [x] else None)"

definition fence_group :: "string \<Rightarrow> string option" where
  "fence_group s =
     (case dropWhile is_space s of
        [] \<Rightarrow> None
      | b # rest \<Rightarrow> if b = CHR ''{'' then map_option (Cons b) (last_close rest) else None)"

definition fence_at :: "string \<Rightarrow> string option" where
  "fence_at s =
     (case strip_prefix ''```'' s of
        None \<Rightarrow> None
      | Some r \<Rightarrow>
          (case (case strip_prefix ''json'' r of
                   None \<Rightarrow> None
                 | Some r' \<Rightarrow> fence_group r') of
             Some g \<Rightarrow> Some g
           | None \<Rightarrow> fence_group r))"

fun match_fenced :: "string \<Rightarrow> string option" where
  "match_fenced [] = fence_at []"
| "match_fenced (x # xs) =
     (case fence_at (x # xs) of
        Some g \<Rightarrow> Some g
      | None \<Rightarrow> match_fenced xs)"

text \<open>
  Lines 80 to 113 of \<^verbatim>\<open>generateQuestionMetadata\<close>: from the text the generation
  service returned to the metadata object. \<open>JSON_parse\<close> is the platform's
  \<^verbatim>\<open>JSON.parse\<close> on texts that start with a brace, where it returns an object or
  throws (\<open>None\<close>).
\<close>

definition parseResponse :: "(string \<Rightarrow> obj option) \<Rightarrow> string \<Rightarrow> exn + obj" where
  "parseResponse JSON_parse result =
     (let cleanedText = trim result;
          jsonMatch = (case match_braces cleanedText of
                         Some m \<Rightarrow> Some m
                       | None \<Rightarrow> (case match_fenced cleanedText of
                                    Some g \<Rightarrow> Some g
                                  | None \<Rightarrow> None))
      in case jsonMatch of
           None \<Rightarrow> Inl (GeminiError ''Invalid response format from Gemini API'')
         | Some m \<Rightarrow>
             (case JSON_parse m of
                None \<Rightarrow> Inl (Error ''SyntaxError'')
              | Some parsedResponse \<Rightarrow>
                  if \<not> truthy (parsedResponse ''title'') \<or> \<not> truthy (parsedResponse ''difficulty'')
                     \<or> \<not> truthy (parsedResponse ''description'')
                  then Inl (GeminiError ''Incomplete response from Gemini API'')
                  else Inr (parsedResponse
                      (''topics'' :=
                          if isArray (parsedResponse ''topics'') then parsedResponse ''topics''
                          else Some (JArr []),
                       ''step_by_step_explanation'' :=
                          if isArray (parsedResponse ''step_by_step_explanation'')
                          then parsedResponse ''step_by_step_explanation''
                          else Some (JArr []),
                       ''pseudocode'' :=
                          if isArray (parsedResponse ''pseudocode'') then parsedResponse ''pseudocode''
                          else None))))"

text \<open>
  The \<^verbatim>\<open>catch\<close> of \<^verbatim>\<open>generateQuestionMetadata\<close>: a \<^verbatim>\<open>GeminiError\<close> is rethrown, any
  other error is wrapped into one.
\<close>

definition rethrow :: "exn \<Rightarrow> exn" where
  "rethrow e =
     (case e of
        GeminiError m \<Rightarrow> GeminiError m
      | _ \<Rightarrow> GeminiError (''Failed to generate question metadata: '' @ getErrorMessage e))"

text \<open>
  \<^verbatim>\<open>generateQuestionMetadata\<close>. The call of the generation service inside
  \<^verbatim>\<open>retry\<close> (of src/lib/utils.ts, not among the source files) is a parameter: its
  outcome \<open>generated\<close>, the text returned or the error thrown after the attempts.
\<close>

definition generateQuestionMetadata :: "(string \<Rightarrow> obj option) \<Rightarrow> exn + string \<Rightarrow> string \<Rightarrow> exn + obj" where
  "generateQuestionMetadata JSON_parse generated title =
     (if title = [] \<or> trim title = [] then Inl (GeminiError ''Title cannot be empty'')
      else (case generated of
              Inl e \<Rightarrow> Inl (rethrow e)
            | Inr result \<Rightarrow>
                (case parseResponse JSON_parse result of
                   Inl e \<Rightarrow> Inl (rethrow e)
                 | Inr metadata \<Rightarrow> Inr metadata)))"

text \<open>
  The two patterns as regular expressions, with the language of an expression as the
  reference for what the matching functions above compute. \<open>found r s\<close>: the
  expression matches somewhere in \<open>s\<close>, which is when \<^verbatim>\<open>s.match(r)\<close> is not null.
\<close>

datatype rexp =
    Eps
  | Chr char
  | Class "char \<Rightarrow> bool"
  | Seq rexp rexp
  | Opt rexp
  | Star rexp

fun lang :: "rexp \<Rightarrow> string set" where
  "lang Eps = {[]}"
| "lang (Chr c) = {[c]}"
| "lang (Class P) = {[c] | c. P c}"
| "lang (Seq r1 r2) = {u @ v | u v. u \<in> lang r1 \<and> v \<in> lang r2}"
| "lang (Opt r) = insert [] (lang r)"
| "lang (Star r) = {concat ws | ws. set ws \<subseteq> lang r}"

definition lit :: "string \<Rightarrow> rexp" where
  "lit s = foldr (\<lambda>c r. Seq (Chr c) r) s Eps"

definition brace_re :: rexp where
  "brace_re = Seq (Chr CHR ''{'') (Seq (Star (Class (\<lambda>c. is_space c \<or> \<not> is_space c))) (Chr CHR ''}''))"

definition fenced_re :: rexp where
  "fenced_re =
     Seq (lit ''```'') (Seq (Opt (lit ''json'')) (Seq (Star (Class is_space))
       (Seq brace_re (Seq (Star (Class is_space)) (lit ''```'')))))"

definition found :: "rexp \<Rightarrow> string \<Rightarrow> bool" where
  "found r s = (\<exists>pre m post. s = pre @ m @ post \<and> m \<in> lang r)"

text \<open>Responses and what \<^verbatim>\<open>JSON.parse\<close> makes of them, for concrete runs of the parser.\<close>

definition empty_title_text :: string where
  "empty_title_text =
     ''{\"title\":\"\",\"difficulty\":\"Easy\",\"description\":\"Decide whether an integer is even.\"}''"

definition empty_title_object :: obj where
  "empty_title_object =
     [''title'' \<mapsto> JStr [], ''difficulty'' \<mapsto> JStr ''Easy'',
      ''description'' \<mapsto> JStr ''Decide whether an integer is even.'']"

definition empty_title_JSON_parse :: "string \<Rightarrow> obj option" where
  "empty_title_JSON_parse s = (if s = empty_title_text then Some empty_title_object else None)"

definition drifted_text :: string where
  "drifted_text =
     ''Here you go: {\"title\":\"Even or odd\",\"difficulty\":\"Easy\",\"description\":\"Decide whether an integer is even.\",\"topics\":\"math\",\"pseudocode\":7} Enjoy!''"

definition drifted_object :: obj where
  "drifted_object =
     [''title'' \<mapsto> JStr ''Even or odd'', ''difficulty'' \<mapsto> JStr ''Easy'',
      ''description'' \<mapsto> JStr ''Decide whether an integer is even.'',
      ''topics'' \<mapsto> JStr ''math'', ''pseudocode'' \<mapsto> JNum 7]"

definition drifted_JSON_parse :: "string \<Rightarrow> obj option" where
  "drifted_JSON_parse s =
     (if s = ''{\"title\":\"Even or odd\",\"difficulty\":\"Easy\",\"description\":\"Decide whether an integer is even.\",\"topics\":\"math\",\"pseudocode\":7}''
      then Some drifted_object else None)"

section \<open>Generation endpoint (src/app/api/generate/route.ts)\<close>

definition MAX_CONCURRENT_GENERATIONS :: nat where
  "MAX_CONCURRENT_GENERATIONS = 3"

definition GENERATION_DELAY :: nat where
  "GENERATION_DELAY = 1000"

record GenerationStatus =
  total :: nat
  completed :: nat
  failed :: nat
  errors :: "string list"

text \<open>The JSON body and the status code of a \<^verbatim>\<open>NextResponse\<close>.\<close>

record response =
  resp_status :: nat
  resp_success :: bool
  resp_error :: "string option"
  resp_data :: "GenerationStatus option"
  resp_message :: "string option"

subsection \<open>Request validation (src/lib/validation.ts, src/lib/types.ts)\<close>

text \<open>
  \<^verbatim>\<open>GenerateRequestSchema\<close>: an object whose \<^verbatim>\<open>titles\<close> is an array of 1 to 20 strings
  of 1 to 200 characters each. \<open>JObj\<close> lists the properties of an object, each name
  once. \<open>None\<close> is a thrown \<^verbatim>\<open>ZodError\<close>.
\<close>

fun as_title :: "json \<Rightarrow> string option" where
  "as_title (JStr s) = (if 1 \<le> length s \<and> length s \<le> 200 then Some s else None)"
| "as_title v = None"

fun as_titles :: "json list \<Rightarrow> string list option" where
  "as_titles [] = Some []"
| "as_titles (x # xs) =
     (case as_title x of
        None \<Rightarrow> None
      | Some t \<Rightarrow> map_option (Cons t) (as_titles xs))"

definition GenerateRequestSchema_parse :: "json \<Rightarrow> string list option" where
  "GenerateRequestSchema_parse d =
     (case d of
        JObj kvs \<Rightarrow>
          (case map_of kvs ''titles'' of
             Some (JArr xs) \<Rightarrow>
               if 1 \<le> length xs \<and> length xs \<le> 20 then as_titles xs else None
           | _ \<Rightarrow> None)
      | _ \<Rightarrow> None)"

text \<open>
  \<^verbatim>\<open>validateGenerateRequest\<close>; \<open>zod_message\<close> gives the message of the first issue
  the schema library reports for the body.
\<close>

definition validateGenerateRequest :: "(json \<Rightarrow> string) \<Rightarrow> json \<Rightarrow> exn + string list" where
  "validateGenerateRequest zod_message d =
     (case GenerateRequestSchema_parse d of
        Some titles \<Rightarrow> Inr titles
      | None \<Rightarrow> Inl (ValidationError (''Invalid generate request: '' @ zod_message d)))"

definition validateAndSanitizeTitle :: "string \<Rightarrow> exn + string" where
  "validateAndSanitizeTitle title =
     (if title = [] then Inl (ValidationError ''Title is required'')
      else (let sanitized = trim title
            in if length sanitized = 0 then Inl (ValidationError ''Title cannot be empty'')
               else if length sanitized > 200
               then Inl (ValidationError ''Title cannot exceed 200 characters'')
               else Inr sanitized))"

subsection \<open>The handler\<close>

text \<open>
  What the handler takes from outside. A task is named by the number of its batch
  and its index in the batch. \<open>generate b k title\<close> is the outcome of the retried
  call of the generation service made by task \<open>(b, k)\<close>; \<open>generateId\<close> and
  \<open>toISOString\<close> are the id and the time stamp the task reads (\<^verbatim>\<open>generateId\<close> is of
  src/lib/utils.ts); \<open>persist\<close> is \<^verbatim>\<open>saveQuestion\<close> applied to the object the task
  built, on a store of any type; \<open>settles_next\<close> picks, among the pending tasks of
  a batch, the one whose promise settles next.
\<close>

record 'db env =
  JSON_parse :: "string \<Rightarrow> obj option"
  generate :: "nat \<Rightarrow> nat \<Rightarrow> string \<Rightarrow> exn + string"
  generateId :: "nat \<Rightarrow> nat \<Rightarrow> string"
  toISOString :: "nat \<Rightarrow> nat \<Rightarrow> string"
  persist :: "obj \<Rightarrow> 'db \<Rightarrow> exn + 'db"
  settles_next :: "(nat \<times> nat) list \<Rightarrow> nat"
  zod_message :: "json \<Rightarrow> string"

text \<open>
  The calls of \<^verbatim>\<open>sleep\<close> and the start and the end of every task are recorded in
  a trace, in the order in which they happen.
\<close>

datatype event =
    Started nat nat
  | TaskSleep nat nat nat
  | Settled nat nat
  | BatchSleep nat

record 'db run_state =
  generationStatus :: GenerationStatus
  generatedQuestions :: "obj list"
  db :: 'db
  trace :: "event list"

text \<open>
  Lines 55 to 74 of a task: from the title to the question object that is handed to
  \<^verbatim>\<open>saveQuestion\<close>, or the error thrown on the way.
\<close>

definition buildQuestion :: "'db env \<Rightarrow> nat \<Rightarrow> nat \<Rightarrow> string \<Rightarrow> exn + obj" where
  "buildQuestion E b k title =
     (case validateAndSanitizeTitle title of
        Inl e \<Rightarrow> Inl e
      | Inr sanitizedTitle \<Rightarrow>
          (case generateQuestionMetadata (JSON_parse E) (generate E b k sanitizedTitle) sanitizedTitle of
             Inl e \<Rightarrow> Inl e
           | Inr metadata \<Rightarrow>
               (let question = ([''id'' \<mapsto> JStr (generateId E b k)] ++ metadata)
                                 (''title'' \<mapsto> JStr sanitizedTitle,
                                  ''created_at'' \<mapsto> JStr (toISOString E b k))
                in if \<not> truthy (question ''title'') \<or> \<not> truthy (question ''description'')
                      \<or> \<not> truthy (question ''solution_python'')
                   then Inl (Error ''Generated question is incomplete'')
                   else Inr question)))"

text \<open>
  The body of one task of \<^verbatim>\<open>batch.map\<close>, from its \<^verbatim>\<open>try\<close> to the end of its
  \<^verbatim>\<open>catch\<close>, as the step in which the task settles. A task whose title passes
  \<^verbatim>\<open>validateAndSanitizeTitle\<close> waits for its sleep and for the generation service; its
  writes to the shared status, list and store happen after its last \<^verbatim>\<open>await\<close>,
  without another task in between. A task whose title is refused takes this step
  at once, when \<^verbatim>\<open>batch.map\<close> calls it (\<open>start_task\<close> below).
\<close>

definition processTitle :: "'db env \<Rightarrow> nat \<times> nat \<times> string \<Rightarrow> 'db run_state \<Rightarrow> 'db run_state" where
  "processTitle E task st =
     (case task of (b, batchIndex, title) \<Rightarrow>
       (let st1 = st\<lparr>trace := trace st @ [Settled b batchIndex]\<rparr>;
            gs = generationStatus st;
            caught = (\<lambda>e. st1\<lparr>generationStatus :=
                         gs\<lparr>failed := failed gs + 1,
                            errors := errors gs @
                              [''Failed to generate \"'' @ title @ ''\": '' @ getErrorMessage e]\<rparr>\<rparr>)
        in case buildQuestion E b batchIndex title of
             Inl e \<Rightarrow> caught e
           | Inr question \<Rightarrow>
               (case persist E question (db st) of
                  Inl e \<Rightarrow> caught e
                | Inr db' \<Rightarrow>
                    st1\<lparr>db := db',
                        generatedQuestions := generatedQuestions st @ [question],
                        generationStatus := gs\<lparr>completed := completed gs + 1\<rparr>\<rparr>)))"

text \<open>\<^verbatim>\<open>await Promise.all(batchPromises)\<close>: the pending tasks settle one after the other, in the
  order the environment picks, until none is pending.\<close>

function settle :: "'db env \<Rightarrow> (nat \<times> nat \<times> string) list \<Rightarrow> 'db run_state \<Rightarrow> 'db run_state" where
  "settle E pending st =
     (if pending = [] then st
      else (let n = settles_next E (map (\<lambda>(b, k, title). (b, k)) pending) mod length pending
            in settle E (take n pending @ drop (Suc n) pending) (processTitle E (pending ! n) st)))"
  by pat_completeness auto
termination
proof (relation "measure (\<lambda>(E, pending, st). length pending)", goal_cases)
  case 1
  show ?case by simp
next
  case (2 E pending st n)
  then have "0 < length pending" by simp
  then have "n < length pending" unfolding 2(2) by (rule mod_less_divisor)
  then show ?case by simp
qed

text \<open>
  \<^verbatim>\<open>batch.map(async (title, batchIndex) => ...)\<close> calls the function on the titles in
  index order, and each call runs to its first \<^verbatim>\<open>await\<close> before the next begins. A
  title that fails \<^verbatim>\<open>validateAndSanitizeTitle\<close> runs through its \<^verbatim>\<open>catch\<close> there and
  then; a task with \<^verbatim>\<open>batchIndex > 0\<close> calls \<^verbatim>\<open>sleep(GENERATION_DELAY)\<close> and is
  pending; the task with index 0 is pending in its generation request.
  \<open>start_task\<close> returns the state and the task if it is pending.
\<close>

definition start_task ::
  "'db env \<Rightarrow> nat \<times> nat \<times> string \<Rightarrow> 'db run_state \<Rightarrow> 'db run_state \<times> (nat \<times> nat \<times> string) list" where
  "start_task E task st =
     (case task of (b, batchIndex, title) \<Rightarrow>
       (let st1 = st\<lparr>trace := trace st @ [Started b batchIndex]\<rparr>
        in if isl (validateAndSanitizeTitle title) then (processTitle E task st1, [])
           else if batchIndex > 0
           then (st1\<lparr>trace := trace st1 @ [TaskSleep b batchIndex GENERATION_DELAY]\<rparr>, [task])
           else (st1, [task])))"

fun start_tasks ::
  "'db env \<Rightarrow> (nat \<times> nat \<times> string) list \<Rightarrow> 'db run_state \<Rightarrow> 'db run_state \<times> (nat \<times> nat \<times> string) list" where
  "start_tasks E [] st = (st, [])"
| "start_tasks E (task # tasks) st =
     (let (st1, p) = start_task E task st;
          (st2, ps) = start_tasks E tasks st1
      in (st2, p @ ps))"

text \<open>The tasks of batch \<open>b\<close>, and the batch from \<^verbatim>\<open>batch.map\<close> to the end of
  \<^verbatim>\<open>await Promise.all(batchPromises)\<close>.\<close>

definition batch_tasks :: "nat \<Rightarrow> string list \<Rightarrow> (nat \<times> nat \<times> string) list" where
  "batch_tasks b batch = map (\<lambda>(batchIndex, title). (b, batchIndex, title)) (enumerate 0 batch)"

definition run_batch :: "'db env \<Rightarrow> nat \<Rightarrow> string list \<Rightarrow> 'db run_state \<Rightarrow> 'db run_state" where
  "run_batch E b batch st =
     (let (st1, pending) = start_tasks E (batch_tasks b batch) st
      in settle E pending st1)"

text \<open>The loop over \<open>batches\<close>; \<open>n\<close> is \<^verbatim>\<open>batches.length\<close> and \<open>b\<close> the index of the
  batch at the head of the list, which is what \<^verbatim>\<open>batches.indexOf(batch)\<close> returns.\<close>

fun run_batches :: "'db env \<Rightarrow> nat \<Rightarrow> nat \<Rightarrow> string list list \<Rightarrow> 'db run_state \<Rightarrow> 'db run_state" where
  "run_batches E n b [] st = st"
| "run_batches E n b (batch # rest) st =
     (let st1 = run_batch E b batch st;
          st2 = (if int b < int n - 1
                 then st1\<lparr>trace := trace st1 @ [BatchSleep (GENERATION_DELAY * 2)]\<rparr>
                 else st1)
      in run_batches E n (Suc b) rest st2)"

text \<open>\<^verbatim>\<open>titles.slice(i, j)\<close> and the loop that cuts the titles into batches.\<close>

definition slice :: "nat \<Rightarrow> nat \<Rightarrow> 'a list \<Rightarrow> 'a list" where
  "slice i j xs = take (j - i) (drop i xs)"

function make_batches :: "nat \<Rightarrow> string list \<Rightarrow> string list list" where
  "make_batches i titles =
     (if i < length titles
      then slice i (i + MAX_CONCURRENT_GENERATIONS) titles
             # make_batches (i + MAX_CONCURRENT_GENERATIONS) titles
      else [])"
  by pat_completeness auto
termination
  by (relation "measure (\<lambda>(i, titles). length titles - i)") (auto simp: MAX_CONCURRENT_GENERATIONS_def)

text \<open>Decimal digits of a number, for the message of the response.\<close>

definition digit :: "nat \<Rightarrow> char" where
  "digit n = ''0123456789'' ! n"

fun digits :: "nat \<Rightarrow> nat \<Rightarrow> string" where
  "digits 0 n = []"
| "digits (Suc fuel) n =
     (if n < 10 then [digit n]
      else digits fuel (n div 10) @ [digit (n mod 10)])"

definition toString :: "nat \<Rightarrow> string" where
  "toString n = digits (Suc n) n"

text \<open>The \<^verbatim>\<open>catch\<close> of \<^verbatim>\<open>POST\<close>: the response for an error thrown in its \<^verbatim>\<open>try\<close>.\<close>

fun error_response :: "exn \<Rightarrow> response" where
  "error_response (ValidationError m) =
     \<lparr>resp_status = 400, resp_success = False, resp_error = Some m,
      resp_data = None, resp_message = None\<rparr>"
| "error_response (GeminiError m) =
     \<lparr>resp_status = 503, resp_success = False,
      resp_error = Some ''AI service temporarily unavailable. Please try again later.'',
      resp_data = None, resp_message = None\<rparr>"
| "error_response (DatabaseError m) =
     \<lparr>resp_status = 500, resp_success = False, resp_error = Some ''Database operation failed'',
      resp_data = None, resp_message = None\<rparr>"
| "error_response (Error m) =
     \<lparr>resp_status = 500, resp_success = False, resp_error = Some ''Internal server error'',
      resp_data = None, resp_message = None\<rparr>"

text \<open>
  \<^verbatim>\<open>POST\<close>. \<open>body\<close> is the decoded request body, \<open>None\<close> when \<^verbatim>\<open>request.json()\<close>
  throws. The result is the response, the store and the trace.
\<close>

definition POST :: "'db env \<Rightarrow> json option \<Rightarrow> 'db \<Rightarrow> response \<times> 'db \<times> event list" where
  "POST E body db0 =
     (case body of
        None \<Rightarrow> (error_response (Error ''SyntaxError''), db0, [])
      | Some d \<Rightarrow>
     (case validateGenerateRequest (zod_message E) d of
        Inl e \<Rightarrow> (error_response e, db0, [])
      | Inr titles \<Rightarrow>
          if length titles = 0 then
            (\<lparr>resp_status = 400, resp_success = False,
              resp_error = Some ''At least one question title is required'',
              resp_data = None, resp_message = None\<rparr>, db0, [])
          else if length titles > 20 then
            (\<lparr>resp_status = 400, resp_success = False,
              resp_error = Some ''Maximum 20 questions can be generated at once'',
              resp_data = None, resp_message = None\<rparr>, db0, [])
          else
            (let batches = make_batches 0 titles;
                 st = run_batches E (length batches) 0 batches
                        \<lparr>generationStatus =
                            \<lparr>total = length titles, completed = 0, failed = 0, errors = []\<rparr>,
                         generatedQuestions = [], db = db0, trace = []\<rparr>;
                 gs = generationStatus st
             in if completed gs = 0 then
                  (\<lparr>resp_status = 500, resp_success = False,
                    resp_error = Some ''Failed to generate any questions'',
                    resp_data = Some gs, resp_message = None\<rparr>, db st, trace st)
                else
                  (let isPartialSuccess = (failed gs > 0)
                   in (\<lparr>resp_status = (if isPartialSuccess then 207 else 200),
                        resp_success = (\<not> isPartialSuccess),
                        resp_error = None,
                        resp_data = Some gs,
                        resp_message = Some (''Successfully generated '' @ toString (completed gs)
                          @ '' out of '' @ toString (total gs) @ '' questions''
                          @ (if isPartialSuccess then '' ('' @ toString (failed gs) @ '' failed)''
                             else []))\<rparr>, db st, trace st)))))"

subsection \<open>Environments for concrete runs\<close>

text \<open>
  A generation service that answers every prompt with one complete object, a store
  that is the list of the objects written, and tasks that settle in index order.
\<close>

definition sample_text :: string where
  "sample_text =
     ''{\"title\":\"Even or odd\",\"difficulty\":\"Easy\",\"topics\":[\"math\"],\"description\":\"Decide whether an integer is even or odd.\",\"example\":{\"input\":\"4\",\"output\":\"even\",\"explanation\":\"4 % 2 == 0\"},\"solution_python\":\"def f(n): return n % 2 == 0\",\"step_by_step_explanation\":[\"take n modulo 2\"]}''"

definition sample_metadata :: obj where
  "sample_metadata =
     [''title'' \<mapsto> JStr ''Even or odd'',
      ''difficulty'' \<mapsto> JStr ''Easy'',
      ''topics'' \<mapsto> JArr [JStr ''math''],
      ''description'' \<mapsto> JStr ''Decide whether an integer is even or odd.'',
      ''example'' \<mapsto> JObj [(''input'', JStr ''4''), (''output'', JStr ''even''),
                              (''explanation'', JStr ''4 % 2 == 0'')],
      ''solution_python'' \<mapsto> JStr ''def f(n): return n % 2 == 0'',
      ''step_by_step_explanation'' \<mapsto> JArr [JStr ''take n modulo 2'']]"

definition sample_env :: "(obj list) env" where
  "sample_env =
     \<lparr>JSON_parse = (\<lambda>s. if s = sample_text then Some sample_metadata else None),
      generate = (\<lambda>b k title. Inr sample_text),
      generateId = (\<lambda>b k. ''q'' @ toString b @ toString k),
      toISOString = (\<lambda>b k. ''2024-01-01T00:00:00.000Z''),
      persist = (\<lambda>question tbl. Inr (tbl @ [question])),
      settles_next = (\<lambda>pending. 0),
      zod_message = (\<lambda>d. ''String must contain at least 1 character(s)'')\<rparr>"

definition request_body :: "string list \<Rightarrow> json" where
  "request_body titles = JObj [(''titles'', JArr (map JStr titles))]"

text \<open>
  The declared type of an object: \<open>as_Question\<close> reads an object that has the shape
  of the TypeScript type \<open>Question\<close> as a value of that type.
\<close>

fun as_string :: "json option \<Rightarrow> string option" where
  "as_string (Some (JStr s)) = Some s"
| "as_string v = None"

fun as_strings :: "json list \<Rightarrow> string list option" where
  "as_strings [] = Some []"
| "as_strings (JStr s # xs) = map_option (Cons s) (as_strings xs)"
| "as_strings (v # xs) = None"

fun as_string_array :: "json option \<Rightarrow> string list option" where
  "as_string_array (Some (JArr xs)) = as_strings xs"
| "as_string_array v = None"

fun as_Example :: "json option \<Rightarrow> Example option" where
  "as_Example (Some (JObj [(k1, JStr a), (k2, JStr b), (k3, JStr c)])) =
     (if k1 = ''input'' \<and> k2 = ''output'' \<and> k3 = ''explanation''
      then Some \<lparr>ex_input = a, ex_output = b, ex_explanation = c\<rparr> else None)"
| "as_Example v = None"

definition as_Question :: "obj \<Rightarrow> Question option" where
  "as_Question q =
     (case (as_string (q ''id''), as_string (q ''title''), as_string (q ''difficulty''),
            as_string_array (q ''topics''), as_string (q ''description''),
            as_Example (q ''example''), as_string (q ''solution_python''),
            as_string_array (q ''step_by_step_explanation''), as_string (q ''created_at'')) of
        (Some i, Some t, Some d, Some tp, Some de, Some ex, Some so, Some st, Some cr) \<Rightarrow>
          if (q ''pseudocode'' = None \<or> as_string_array (q ''pseudocode'') \<noteq> None)
             \<and> (q ''updated_at'' = None \<or> as_string (q ''updated_at'') \<noteq> None)
          then Some \<lparr>q_id = i, q_title = t, q_difficulty = d, q_topics = tp, q_description = de,
                      q_example = ex, q_solution_python = so, q_step_by_step_explanation = st,
                      q_pseudocode = (case q ''pseudocode'' of None \<Rightarrow> None
                                      | Some v \<Rightarrow> as_string_array (Some v)),
                      q_created_at = cr, q_updated_at = as_string (q ''updated_at'')\<rparr>
          else None
      | _ \<Rightarrow> None)"

text \<open>
  A generation service whose answer leaves out the lists and keeps the texts short,
  in front of the table of database.ts. The table of the model holds values of the
  declared type \<open>Question\<close>. The handler does not check that type at run time: an
  object of another shape is handed to \<^verbatim>\<open>saveQuestion\<close> as it is. The store of this
  environment has no row for such an object and refuses it, which is a choice of this
  environment and not what the code does; the question of this environment has the
  declared shape, so the choice is not met on its run.
\<close>

definition lax_text :: string where
  "lax_text =
     ''{\"title\":\"x\",\"difficulty\":\"Easy\",\"description\":\"short\",\"example\":{\"input\":\"\",\"output\":\"\",\"explanation\":\"\"},\"solution_python\":\"pass\"}''"

definition lax_metadata :: obj where
  "lax_metadata =
     [''title'' \<mapsto> JStr ''x'',
      ''difficulty'' \<mapsto> JStr ''Easy'',
      ''description'' \<mapsto> JStr ''short'',
      ''example'' \<mapsto> JObj [(''input'', JStr []), (''output'', JStr []), (''explanation'', JStr [])],
      ''solution_python'' \<mapsto> JStr ''pass'']"

definition lax_env :: "questions_table env" where
  "lax_env =
     \<lparr>JSON_parse = (\<lambda>s. if s = lax_text then Some lax_metadata else None),
      generate = (\<lambda>b k title. Inr lax_text),
      generateId = (\<lambda>b k. ''q'' @ toString b @ toString k),
      toISOString = (\<lambda>b k. ''2024-01-01T00:00:00.000Z''),
      persist = (\<lambda>question tbl.
                   case as_Question question of
                     None \<Rightarrow> Inl (Error ''TypeError'')
                   | Some a \<Rightarrow> saveQuestion plain_JSON ''2024-01-01T00:00:01.000Z'' a tbl),
      settles_next = (\<lambda>pending. 0),
      zod_message = (\<lambda>d. ''String must contain at least 1 character(s)'')\<rparr>"

text \<open>All tasks of a request, \<open>b\<close> being the number of the first batch, and whether a
  task fails before the write.\<close>

fun all_tasks :: "nat \<Rightarrow> string list list \<Rightarrow> (nat \<times> nat \<times> string) list" where
  "all_tasks b [] = []"
| "all_tasks b (batch # rest) = batch_tasks b batch @ all_tasks (Suc b) rest"

definition build_fails :: "'db env \<Rightarrow> nat \<times> nat \<times> string \<Rightarrow> bool" where
  "build_fails E task = (case task of (b, k, title) \<Rightarrow> isl (buildQuestion E b k title))"





section \<open>Properties of the rate limiter\<close>

lemma isAllowed_known:
  "cls c = Some info \<Longrightarrow> isAllowed cfg now c cls =
     (let kept = filter (\<lambda>t. now - windowMs cfg < t) (requests info);
          ok = int (length kept) < maxRequests cfg;
          reqs = (if ok then kept @ [now] else kept)
      in (\<lparr>allowed = ok, remaining = max 0 (maxRequests cfg - int (length reqs)), resetTime = now\<rparr>,
          cls(c \<mapsto> info\<lparr>requests := reqs\<rparr>)))"
  by (simp add: isAllowed_def Let_def)

lemma isAllowed_new:
  "cls c = None \<Longrightarrow> isAllowed cfg now c cls =
     (let ok = 0 < maxRequests cfg;
          reqs = (if ok then [now] else [])
      in (\<lparr>allowed = ok, remaining = max 0 (maxRequests cfg - int (length reqs)), resetTime = now\<rparr>,
          cls(c \<mapsto> \<lparr>requests = reqs, lastReset = now\<rparr>)))"
  by (simp add: isAllowed_def Let_def)

lemma isAllowed_step:
  "(let old = (case cls clientId of None \<Rightarrow> [] | Some info \<Rightarrow> requests info);
        kept = filter (\<lambda>t. now - windowMs config < t) old;
        (r, cls') = isAllowed config now clientId cls
    in allowed r = (int (length kept) < maxRequests config)
     \<and> map_option requests (cls' clientId) = Some (if allowed r then kept @ [now] else kept)
     \<and> cls'(clientId := None) = cls(clientId := None))"
  by (auto simp: isAllowed_def Let_def split: option.splits)

lemma generation_window_scenario:
  assumes "sorted [t1, t2, t3, t4, t5, t6]" "t6 < t1 + 60000" "t1 + 60000 \<le> t7"
  shows "fst (calls generation_config clientId [t1, t2, t3, t4, t5, t6, t7] Map.empty)
        = [True, True, True, True, True, False, True]"
proof -
  from assms have o: "t1 \<le> t2" "t2 \<le> t3" "t3 \<le> t4" "t4 \<le> t5" "t5 \<le> t6" by simp_all
  show ?thesis using o assms(2,3)
    by (simp add: isAllowed_new isAllowed_known generation_config_def Let_def)
qed

text \<open>
  Claim C6 as stated fails at the edge of the window. A client calls at 0, 1, 2, 3, 4
  and again at 60000. None of the five recorded timestamps is older than
  \<open>now - window = 0\<close>, so by the claim all five remain and the sixth call, at the
  maximum of 5, is rejected. The code keeps the timestamps \<open>time > windowStart\<close> only:
  it drops the timestamp 0, counts four and admits the sixth call.
\<close>

theorem isAllowed_window_edge_counterexample:
  "fst (calls generation_config ''10.0.0.1'' [0, 1, 2, 3, 4, 60000] Map.empty)
     = [True, True, True, True, True, True]
   \<and> map_option requests (snd (calls generation_config ''10.0.0.1'' [0, 1, 2, 3, 4] Map.empty) ''10.0.0.1'')
       = Some [0, 1, 2, 3, 4]
   \<and> filter (\<lambda>t. \<not> t < 60000 - windowMs generation_config) [0, 1, 2, 3, 4] = [0, 1, 2, 3, 4]
   \<and> \<not> int (length [0, 1, 2, 3, 4 :: int]) < maxRequests generation_config"
  by (simp add: isAllowed_new isAllowed_known generation_config_def Let_def)

text \<open>
  Claim C6, amended. One call of \<open>isAllowed\<close>, in any state of the client map and at
  any clock reading: the client's recorded timestamps that are not strictly newer than
  \<open>now - windowMs\<close> are dropped, the one that is exactly a window old with them; the
  call is admitted iff the number of remaining timestamps is strictly below
  \<open>maxRequests\<close>; the new record is the remaining timestamps, with \<open>now\<close> appended iff
  the call was admitted; no other client's record changes. Since the state is
  arbitrary this holds at every call of every sequence. In particular, with 5
  requests per 60000 ms: of six calls of a fresh client at non-decreasing times, the
  sixth less than 60000 ms after the first, the first five are admitted and the sixth
  is rejected, and a seventh call made 60000 ms or more after the first is admitted.
\<close>

theorem isAllowed_sliding_window:
  "(let old = (case cls clientId of None \<Rightarrow> [] | Some info \<Rightarrow> requests info);
        kept = filter (\<lambda>t. now - windowMs config < t) old;
        (r, cls') = isAllowed config now clientId cls
    in allowed r = (int (length kept) < maxRequests config)
     \<and> map_option requests (cls' clientId) = Some (if allowed r then kept @ [now] else kept)
     \<and> cls'(clientId := None) = cls(clientId := None))
   \<and> (sorted [t1, t2, t3, t4, t5, t6] \<and> t6 < t1 + 60000 \<and> t1 + 60000 \<le> t7 \<longrightarrow>
        fst (calls generation_config clientId [t1, t2, t3, t4, t5, t6, t7] Map.empty)
          = [True, True, True, True, True, False, True])"
  using isAllowed_step [of cls clientId now config]
    generation_window_scenario [of t1 t2 t3 t4 t5 t6 t7 clientId]
  by blast

theorem isAllowed_sliding_window_witness:
  "(let cls = [''10.0.0.1'' \<mapsto> \<lparr>requests = [0, 50000], lastReset = 0\<rparr>];
        (r, cls') = isAllowed generation_config 60000 ''10.0.0.1'' cls
    in allowed r \<and> map_option requests (cls' ''10.0.0.1'') = Some [50000, 60000])
   \<and> sorted [0, 1000, 2000, 3000, 4000, 59999 :: int]
   \<and> fst (calls generation_config ''10.0.0.1'' [0, 1000, 2000, 3000, 4000, 59999, 60000] Map.empty)
        = [True, True, True, True, True, False, True]"
  using isAllowed_sliding_window [of "[''10.0.0.1'' \<mapsto> \<lparr>requests = [0, 50000], lastReset = 0\<rparr>]"
      "''10.0.0.1''" 60000 generation_config 0 1000 2000 3000 4000 59999 60000]
  by (simp add: generation_config_def Let_def split: prod.splits)

text \<open>
  What the sweep does: a record is deleted iff its \<open>lastReset\<close> is older than
  \<open>now - 2 * windowMs\<close>, and \<open>isAllowed\<close> writes \<open>lastReset\<close> only when it creates
  the record.
\<close>

lemma cleanup_deletes_iff:
  "cls c = Some info \<Longrightarrow>
     (cleanup config now cls c = None) = (lastReset info < now - windowMs config * 2)"
  by (simp add: cleanup_def Let_def)

lemma isAllowed_keeps_lastReset:
  "cls c = Some info \<Longrightarrow>
     map_option lastReset (snd (isAllowed config now c cls) c) = Some (lastReset info)"
  by (simp add: isAllowed_known Let_def)

text \<open>
  Claim C7 fails on the code. A client whose record was created at time 0 issues a
  request at 130000 (admitted, recorded); the sweep at 130001 has cutoff 10001 and
  deletes the record, although its newest request timestamp 130000 is not older than
  the cutoff. With five requests at 130000..130004 the sweep at 130005 deletes the
  record as well, and a sixth request at 130006 is then admitted inside the window of
  those five.
\<close>

theorem cleanup_evicts_active_client:
  "(let (r0, c0) = isAllowed generation_config 0 ''10.0.0.1'' Map.empty;
        (r1, c1) = isAllowed generation_config 130000 ''10.0.0.1'' c0
    in allowed r1 \<and> map_option requests (c1 ''10.0.0.1'') = Some [130000]
     \<and> cleanup generation_config 130001 c1 ''10.0.0.1'' = None)
   \<and> (let (rs, c) = calls generation_config ''10.0.0.1''
                       [0, 130000, 130001, 130002, 130003, 130004] Map.empty;
           (r, c') = isAllowed generation_config 130006 ''10.0.0.1''
                       (cleanup generation_config 130005 c)
       in rs = [True, True, True, True, True, True]
        \<and> map_option requests (c ''10.0.0.1'') = Some [130000, 130001, 130002, 130003, 130004]
        \<and> cleanup generation_config 130005 c ''10.0.0.1'' = None
        \<and> allowed r)"
  by (simp add: isAllowed_new isAllowed_known generation_config_def Let_def cleanup_def)

section \<open>Properties of the memory cache\<close>

text \<open>
  Claim C8. A TTL is a duration in milliseconds, \<open>t \<ge> 0\<close>. For every key, value and
  TTL, \<open>get(k)\<close> at the clock reading \<open>now\<close> of \<open>set(k, v, t)\<close> returns \<open>v\<close>, and so does
  every lookup at a reading \<open>now'\<close> with \<open>now' - now \<le> t\<close>, which leaves the map as it
  is. Once \<open>now' - now > t\<close>, \<open>get\<close> returns absent and \<open>has\<close> returns false, each of
  them removing the entry from the map, and \<open>has\<close> after that \<open>get\<close> is false as well.
\<close>

theorem cache_set_get_ttl:
  "(0 \<le> t \<longrightarrow> cache_get now k (cache_set now k v t c) = (Some v, cache_set now k v t c))
   \<and> (now' - now \<le> t \<longrightarrow>
        cache_get now' k (cache_set now k v t c) = (Some v, cache_set now k v t c)
      \<and> cache_has now' k (cache_set now k v t c) = (True, cache_set now k v t c))
   \<and> (now' - now > t \<longrightarrow>
        cache_get now' k (cache_set now k v t c) = (None, c(k := None))
      \<and> cache_has now' k (cache_set now k v t c) = (False, c(k := None))
      \<and> snd (cache_get now' k (cache_set now k v t c)) k = None
      \<and> fst (cache_has now' k (snd (cache_get now' k (cache_set now k v t c)))) = False)"
  by (auto simp: cache_get_def cache_set_def cache_has_def)

theorem cache_set_get_ttl_witness:
  "(0::int) \<le> 1000
   \<and> fst (cache_get 5000 ''k'' (cache_set 5000 ''k'' (42::nat) 1000 Map.empty)) = Some 42
   \<and> (6000::int) - 5000 \<le> 1000
   \<and> fst (cache_get 6000 ''k'' (cache_set 5000 ''k'' (42::nat) 1000 Map.empty)) = Some 42
   \<and> (6001::int) - 5000 > 1000
   \<and> fst (cache_get 6001 ''k'' (cache_set 5000 ''k'' (42::nat) 1000 Map.empty)) = None
   \<and> fst (cache_has 6001 ''k'' (cache_set 5000 ''k'' (42::nat) 1000 Map.empty)) = False
   \<and> snd (cache_get 6001 ''k'' (cache_set 5000 ''k'' (42::nat) 1000 Map.empty)) ''k'' = None"
  using cache_set_get_ttl [of 1000 5000 "''k''" "42::nat" Map.empty 6000]
    cache_set_get_ttl [of 1000 5000 "''k''" "42::nat" Map.empty 6001]
  by simp


section \<open>Properties of persistence\<close>

lemma find_filter_append:
  "row_id r = i \<Longrightarrow> find (\<lambda>x. row_id x = i) (filter (\<lambda>x. row_id x \<noteq> i \<and> P x) tbl @ [r]) = Some r"
  by (induction tbl) auto

lemma getQuestion_inserted:
  assumes "row_id r = i" "i \<noteq> []" "convertDbToQuestion J r = Inr q"
  shows "getQuestion J i (filter (\<lambda>x. row_id x \<noteq> i \<and> P x) tbl @ [r]) = Inr (Some q)"
  using assms by (simp add: getQuestion_def statements_selectById_def find_filter_append)

lemma save_then_get:
  assumes "q_id a \<noteq> []" "q_difficulty a \<in> {''Easy'', ''Medium'', ''Hard''}" "now \<noteq> []"
      "parse_list J (stringify_list J (q_topics a)) = Some (q_topics a)"
      "parse_list J (stringify_list J (q_step_by_step_explanation a)) = Some (q_step_by_step_explanation a)"
      "parse_example J (stringify_example J (q_example a)) = Some (q_example a)"
      "\<forall>p. q_pseudocode a = Some p \<longrightarrow> stringify_list J p \<noteq> [] \<and> parse_list J (stringify_list J p) = Some p"
  shows "\<exists>tbl'. saveQuestion J now a tbl = Inr tbl'
           \<and> getQuestion J (q_id a) tbl' = Inr (Some (a\<lparr>q_updated_at := Some now\<rparr>))"
proof -
  let ?r = "\<lparr>row_id = q_id a,
              row_title = q_title a,
              row_difficulty = q_difficulty a,
              row_topics = stringify_list J (q_topics a),
              row_description = q_description a,
              row_example = stringify_example J (q_example a),
              row_solution_python = q_solution_python a,
              row_step_by_step_explanation = stringify_list J (q_step_by_step_explanation a),
              row_pseudocode = (case q_pseudocode a of
                                  None \<Rightarrow> None
                                | Some p \<Rightarrow> Some (stringify_list J p)),
              row_created_at = q_created_at a,
              row_updated_at = Some now\<rparr>"
  let ?tbl' = "filter (\<lambda>x. row_id x \<noteq> q_id a \<and> row_title x \<noteq> q_title a) tbl @ [?r]"
  have save: "saveQuestion J now a tbl = Inr ?tbl'"
    using assms(2) by (simp add: saveQuestion_def statements_insert_def)
  have conv: "convertDbToQuestion J ?r = Inr (a\<lparr>q_updated_at := Some now\<rparr>)"
    using assms(3-7) by (cases "q_pseudocode a") (simp_all add: convertDbToQuestion_def)
  have "getQuestion J (q_id a) ?tbl' = Inr (Some (a\<lparr>q_updated_at := Some now\<rparr>))"
    by (rule getQuestion_inserted [OF _ assms(1) conv]) simp
  with save show ?thesis by blast
qed



text \<open>
  Claim C9 as stated fails: \<open>saveQuestion\<close> always writes the time of the save into
  the column \<^verbatim>\<open>updated_at\<close>, whatever the Artifact holds there, so the record read
  back differs from the Artifact written in that field.
\<close>

theorem save_get_updated_at_counterexample:
  "getQuestion plain_JSON ''q1''
       (case saveQuestion plain_JSON ''2024-01-02T00:00:00.000Z'' sample_question [] of
          Inr tbl \<Rightarrow> tbl | Inl e \<Rightarrow> [])
     = Inr (Some (sample_question\<lparr>q_updated_at := Some ''2024-01-02T00:00:00.000Z''\<rparr>))
   \<and> sample_question\<lparr>q_updated_at := Some ''2024-01-02T00:00:00.000Z''\<rparr> \<noteq> sample_question"
  by (simp add: saveQuestion_def statements_insert_def getQuestion_def statements_selectById_def
        convertDbToQuestion_def plain_JSON_def sample_question_def json_quote_def)

text \<open>
  Claim C9, amended. For an Artifact \<open>a\<close> of type \<open>Question\<close> with a non-empty id and a
  difficulty among Easy, Medium, Hard, saved at the non-empty time stamp \<open>now\<close> on a
  platform whose JSON printer and parser are inverse on the fields of \<open>a\<close>:
  \<open>saveQuestion\<close> succeeds on any table, and \<open>getQuestion (id a)\<close> then returns \<open>a\<close>
  with every field as written, the lists in their order, except that \<open>updated_at\<close> is
  the time of the save.
\<close>

theorem save_then_get_roundtrip:
  assumes "q_id a \<noteq> []" "q_difficulty a \<in> {''Easy'', ''Medium'', ''Hard''}" "now \<noteq> []"
      "parse_list J (stringify_list J (q_topics a)) = Some (q_topics a)"
      "parse_list J (stringify_list J (q_step_by_step_explanation a)) = Some (q_step_by_step_explanation a)"
      "parse_example J (stringify_example J (q_example a)) = Some (q_example a)"
      "\<forall>p. q_pseudocode a = Some p \<longrightarrow> stringify_list J p \<noteq> [] \<and> parse_list J (stringify_list J p) = Some p"
  shows "\<exists>tbl'. saveQuestion J now a tbl = Inr tbl'
           \<and> getQuestion J (q_id a) tbl' = Inr (Some (a\<lparr>q_updated_at := Some now\<rparr>))"
  using assms by (rule save_then_get)

theorem save_then_get_roundtrip_witness:
  "\<exists>tbl'. saveQuestion plain_JSON ''2024-01-02T00:00:00.000Z'' sample_question [] = Inr tbl'
      \<and> getQuestion plain_JSON ''q1'' tbl'
          = Inr (Some (sample_question\<lparr>q_updated_at := Some ''2024-01-02T00:00:00.000Z''\<rparr>))"
  using save_then_get_roundtrip [of sample_question "''2024-01-02T00:00:00.000Z''" plain_JSON "[]"]
  by (simp add: plain_JSON_def sample_question_def json_quote_def)

section \<open>Properties of the response parser\<close>

lemma lang_lit: "lang (lit s) = {s}"
  by (induction s) (auto simp: lit_def)

lemma concat_singletons: "set ws \<subseteq> {[c] | c. P c} \<Longrightarrow> list_all P (concat ws)"
  by (induction ws) auto

lemma lang_Star_Class: "lang (Star (Class P)) = {w. list_all P w}"
proof (intro set_eqI iffI)
  fix w assume "w \<in> lang (Star (Class P))"
  then show "w \<in> {w. list_all P w}" by (auto simp: concat_singletons)
next
  fix w assume "w \<in> {w. list_all P w}"
  then have a: "set (map (\<lambda>c. [c]) w) \<subseteq> {[c] | c. P c}" by (auto simp: list_all_iff)
  have b: "w = concat (map (\<lambda>c. [c]) w)" by (induction w) auto
  have "w = concat (map (\<lambda>c. [c]) w) \<and> set (map (\<lambda>c. [c]) w) \<subseteq> {[c] | c. P c}"
    by (rule conjI [OF b a])
  then have "\<exists>ws. w = concat ws \<and> set ws \<subseteq> {[c] | c. P c}"
    by (rule exI)
  then show "w \<in> lang (Star (Class P))" by simp
qed

lemma lang_brace_re: "lang brace_re = {CHR ''{'' # x @ [CHR ''}''] | x. True}"
  unfolding brace_re_def lang.simps(4) lang_Star_Class by (auto simp: list_all_iff)

lemma in_lang_Seq: "m \<in> lang (Seq r1 r2) \<longleftrightarrow> (\<exists>u v. m = u @ v \<and> u \<in> lang r1 \<and> v \<in> lang r2)"
  by auto

lemma lang_fenced_re:
  "m \<in> lang fenced_re \<longleftrightarrow>
     (\<exists>j w1 x w2. m = ''```'' @ j @ w1 @ CHR ''{'' # x @ CHR ''}'' # w2 @ ''```''
        \<and> (j = [] \<or> j = ''json'') \<and> list_all is_space w1 \<and> list_all is_space w2)"
  (is "?L \<longleftrightarrow> ?R")
proof
  assume ?L
  then obtain u1 v1 where 1: "m = u1 @ v1" "u1 = ''```''"
      and v1: "v1 \<in> lang (Seq (Opt (lit ''json'')) (Seq (Star (Class is_space))
                  (Seq brace_re (Seq (Star (Class is_space)) (lit ''```'')))))"
    unfolding fenced_re_def in_lang_Seq [of m] lang_lit by blast
  from v1 obtain j v2 where 2: "v1 = j @ v2" "j = [] \<or> j = ''json''"
      and v2: "v2 \<in> lang (Seq (Star (Class is_space))
                  (Seq brace_re (Seq (Star (Class is_space)) (lit ''```''))))"
    unfolding in_lang_Seq [of v1] lang.simps(5) lang_lit by blast
  from v2 obtain w1 v3 where 3: "v2 = w1 @ v3" "list_all is_space w1"
      and v3: "v3 \<in> lang (Seq brace_re (Seq (Star (Class is_space)) (lit ''```'')))"
    unfolding in_lang_Seq [of v2] lang_Star_Class by blast
  from v3 obtain b v4 where 4: "v3 = b @ v4" "b \<in> lang brace_re"
      and v4: "v4 \<in> lang (Seq (Star (Class is_space)) (lit ''```''))"
    unfolding in_lang_Seq [of v3] by blast
  from v4 obtain w2 where 5: "v4 = w2 @ ''```''" "list_all is_space w2"
    unfolding in_lang_Seq [of v4] lang_Star_Class lang_lit by blast
  from 4(2) obtain x where 6: "b = CHR ''{'' # x @ [CHR ''}'']" by (auto simp: lang_brace_re)
  have "m = ''```'' @ j @ w1 @ CHR ''{'' # x @ CHR ''}'' # w2 @ ''```''"
    by (simp add: 1 2(1) 3(1) 4(1) 5(1) 6)
  with 2(2) 3(2) 5(2) show ?R by blast
next
  assume ?R
  then obtain j w1 x w2 where m: "m = ''```'' @ j @ w1 @ CHR ''{'' # x @ CHR ''}'' # w2 @ ''```''"
    and j: "j = [] \<or> j = ''json''" and w: "list_all is_space w1" "list_all is_space w2"
    by blast
  have b: "CHR ''{'' # x @ [CHR ''}''] \<in> lang brace_re" by (auto simp: lang_brace_re)
  have e5: "w2 @ ''```'' \<in> lang (Seq (Star (Class is_space)) (lit ''```''))"
    unfolding in_lang_Seq lang_Star_Class lang_lit using w(2) by blast
  have e4: "(CHR ''{'' # x @ [CHR ''}'']) @ (w2 @ ''```'')
      \<in> lang (Seq brace_re (Seq (Star (Class is_space)) (lit ''```'')))"
    unfolding in_lang_Seq [of _ brace_re] using b e5 by blast
  have e3: "w1 @ ((CHR ''{'' # x @ [CHR ''}'']) @ (w2 @ ''```''))
      \<in> lang (Seq (Star (Class is_space)) (Seq brace_re (Seq (Star (Class is_space)) (lit ''```''))))"
    unfolding in_lang_Seq [of _ "Star (Class is_space)"] lang_Star_Class using w(1) e4 by blast
  have j': "j \<in> lang (Opt (lit ''json''))" using j by (auto simp: lang_lit)
  have e2: "j @ (w1 @ ((CHR ''{'' # x @ [CHR ''}'']) @ (w2 @ ''```'')))
      \<in> lang (Seq (Opt (lit ''json'')) (Seq (Star (Class is_space))
            (Seq brace_re (Seq (Star (Class is_space)) (lit ''```'')))))"
    unfolding in_lang_Seq [of _ "Opt (lit ''json'')"] using j' e3 by blast
  have e1: "''```'' @ (j @ (w1 @ ((CHR ''{'' # x @ [CHR ''}'']) @ (w2 @ ''```''))))
      \<in> lang fenced_re"
    unfolding fenced_re_def in_lang_Seq [of _ "lit ''```''"] lang_lit using e2 by blast
  moreover have "m = ''```'' @ (j @ (w1 @ ((CHR ''{'' # x @ [CHR ''}'']) @ (w2 @ ''```''))))"
    using m by simp
  ultimately show ?L by simp
qed

lemma match_braces_Nil: "match_braces [] = None"
  by (simp add: match_braces_def)

lemma match_braces_Cons:
  "match_braces (x # xs) =
     (if x = CHR ''{'' then map_option (Cons x) (upto_last CHR ''}'' xs) else match_braces xs)"
  by (simp add: match_braces_def)

lemma upto_last_None: "upto_last c s = None \<longleftrightarrow> c \<notin> set s"
  by (induction s) (auto split: option.splits)

lemma upto_last_Some: "upto_last c s = Some m \<Longrightarrow> \<exists>x t. m = x @ [c] \<and> s = m @ t \<and> c \<notin> set t"
proof (induction s arbitrary: m)
  case Nil
  then show ?case by simp
next
  case (Cons a s)
  show ?case
  proof (cases "upto_last c s")
    case None
    with Cons.prems have "a = c" "m = [a]" by (auto split: if_splits)
    moreover from None have "c \<notin> set s" by (simp add: upto_last_None)
    ultimately show ?thesis by auto
  next
    case (Some m')
    with Cons.prems have m: "m = a # m'" by simp
    from Cons.IH [OF Some] obtain x t where "m' = x @ [c]" "s = m' @ t" "c \<notin> set t" by blast
    with m have "m = (a # x) @ [c] \<and> a # s = m @ t \<and> c \<notin> set t" by simp
    then show ?thesis by blast
  qed
qed

lemma match_braces_None_iff:
  "match_braces s = None \<longleftrightarrow> \<not> (\<exists>pre rest. s = pre @ CHR ''{'' # rest \<and> CHR ''}'' \<in> set rest)"
proof (induction s)
  case Nil
  then show ?case by (simp add: match_braces_Nil)
next
  case (Cons a s)
  show ?case
  proof (cases "a = CHR ''{''")
    case True
    have "(\<exists>pre rest. a # s = pre @ CHR ''{'' # rest \<and> CHR ''}'' \<in> set rest) \<longleftrightarrow> CHR ''}'' \<in> set s"
    proof
      assume "\<exists>pre rest. a # s = pre @ CHR ''{'' # rest \<and> CHR ''}'' \<in> set rest"
      then obtain pre rest where d: "a # s = pre @ CHR ''{'' # rest" "CHR ''}'' \<in> set rest" by blast
      then show "CHR ''}'' \<in> set s" by (cases pre) auto
    next
      assume "CHR ''}'' \<in> set s"
      with True have "a # s = [] @ CHR ''{'' # s \<and> CHR ''}'' \<in> set s" by simp
      then show "\<exists>pre rest. a # s = pre @ CHR ''{'' # rest \<and> CHR ''}'' \<in> set rest" by blast
    qed
    with True show ?thesis by (simp add: match_braces_Cons upto_last_None)
  next
    case False
    have "(\<exists>pre rest. a # s = pre @ CHR ''{'' # rest \<and> CHR ''}'' \<in> set rest)
        \<longleftrightarrow> (\<exists>pre rest. s = pre @ CHR ''{'' # rest \<and> CHR ''}'' \<in> set rest)"
    proof
      assume "\<exists>pre rest. a # s = pre @ CHR ''{'' # rest \<and> CHR ''}'' \<in> set rest"
      then obtain pre rest where d: "a # s = pre @ CHR ''{'' # rest" "CHR ''}'' \<in> set rest" by blast
      with False obtain pre' where "pre = a # pre'" by (cases pre) auto
      with d have "s = pre' @ CHR ''{'' # rest" by simp
      with d(2) show "\<exists>pre rest. s = pre @ CHR ''{'' # rest \<and> CHR ''}'' \<in> set rest" by blast
    next
      assume "\<exists>pre rest. s = pre @ CHR ''{'' # rest \<and> CHR ''}'' \<in> set rest"
      then obtain pre rest where "s = pre @ CHR ''{'' # rest" "CHR ''}'' \<in> set rest" by blast
      then have "a # s = (a # pre) @ CHR ''{'' # rest \<and> CHR ''}'' \<in> set rest" by simp
      then show "\<exists>pre rest. a # s = pre @ CHR ''{'' # rest \<and> CHR ''}'' \<in> set rest" by blast
    qed
    with False Cons.IH show ?thesis by (simp add: match_braces_Cons)
  qed
qed

lemma found_brace_re:
  "found brace_re s \<longleftrightarrow> (\<exists>pre rest. s = pre @ CHR ''{'' # rest \<and> CHR ''}'' \<in> set rest)"
proof
  assume "found brace_re s"
  then obtain pre x post where "s = pre @ (CHR ''{'' # x @ [CHR ''}'']) @ post"
    by (auto simp: found_def lang_brace_re)
  then have "s = pre @ CHR ''{'' # (x @ CHR ''}'' # post) \<and> CHR ''}'' \<in> set (x @ CHR ''}'' # post)"
    by simp
  then show "\<exists>pre rest. s = pre @ CHR ''{'' # rest \<and> CHR ''}'' \<in> set rest" by blast
next
  assume "\<exists>pre rest. s = pre @ CHR ''{'' # rest \<and> CHR ''}'' \<in> set rest"
  then obtain pre rest where s: "s = pre @ CHR ''{'' # rest" and "CHR ''}'' \<in> set rest" by blast
  then obtain x post where "rest = x @ CHR ''}'' # post" by (auto simp: in_set_conv_decomp)
  with s have "s = pre @ (CHR ''{'' # x @ [CHR ''}'']) @ post" by simp
  moreover have "CHR ''{'' # x @ [CHR ''}''] \<in> lang brace_re" by (auto simp: lang_brace_re)
  ultimately show "found brace_re s" unfolding found_def by blast
qed

lemma match_braces_decides: "match_braces s \<noteq> None \<longleftrightarrow> found brace_re s"
  by (simp add: match_braces_None_iff found_brace_re)

lemma found_fenced_imp_brace: "found fenced_re s \<Longrightarrow> found brace_re s"
proof -
  assume "found fenced_re s"
  then obtain pre m post where "s = pre @ m @ post" "m \<in> lang fenced_re"
    unfolding found_def by blast
  moreover from this(2) obtain j w1 x w2 where
    "m = ''```'' @ j @ w1 @ CHR ''{'' # x @ CHR ''}'' # w2 @ ''```''"
    unfolding lang_fenced_re by blast
  ultimately have "s = (pre @ ''```'' @ j @ w1) @ CHR ''{'' # (x @ CHR ''}'' # w2 @ ''```'' @ post)
      \<and> CHR ''}'' \<in> set (x @ CHR ''}'' # w2 @ ''```'' @ post)"
    by simp
  then show "found brace_re s" unfolding found_brace_re by blast
qed

lemma strip_prefix_iff: "strip_prefix p s = Some r \<longleftrightarrow> s = p @ r"
proof (induction p arbitrary: s)
  case Nil
  then show ?case by auto
next
  case (Cons a p)
  then show ?case by (cases s) auto
qed

lemma not_space_brace: "\<not> is_space CHR ''{''"
  by (simp add: is_space_def)

lemma not_space_backtick: "\<not> is_space CHR 0x60"
  by (simp add: is_space_def)

lemma dropWhile_spaces: "list_all is_space w \<Longrightarrow> \<not> is_space c \<Longrightarrow> dropWhile is_space (w @ c # t) = c # t"
  by (induction w) auto

lemma takeWhile_spaces: "list_all is_space (takeWhile is_space s)"
  by (induction s) auto

lemma fence_tail_iff:
  "fence_tail t \<longleftrightarrow> (\<exists>w post. t = w @ ''```'' @ post \<and> list_all is_space w)"
proof
  assume "fence_tail t"
  then obtain post where "dropWhile is_space t = ''```'' @ post"
    unfolding fence_tail_def using strip_prefix_iff [of "''```''" "dropWhile is_space t"] by blast
  then have "t = takeWhile is_space t @ ''```'' @ post"
    using takeWhile_dropWhile_id [of is_space t] by simp
  with takeWhile_spaces [of t] show "\<exists>w post. t = w @ ''```'' @ post \<and> list_all is_space w"
    by blast
next
  assume "\<exists>w post. t = w @ ''```'' @ post \<and> list_all is_space w"
  then obtain w post where t: "t = w @ ''```'' @ post" and w: "list_all is_space w" by blast
  have "dropWhile is_space t = ''```'' @ post"
    using dropWhile_spaces [OF w not_space_backtick] t by simp
  then show "fence_tail t"
    unfolding fence_tail_def using strip_prefix_iff [of "''```''" "dropWhile is_space t" post] by simp
qed

lemma last_close_Some:
  "last_close s = Some m \<Longrightarrow> \<exists>x t. m = x @ [CHR ''}''] \<and> s = m @ t \<and> fence_tail t"
proof (induction s arbitrary: m)
  case Nil
  then show ?case by simp
next
  case (Cons a s)
  show ?case
  proof (cases "last_close s")
    case None
    with Cons.prems have "a = CHR ''}''" "m = [a]" "fence_tail s" by (auto split: if_splits)
    then have "m = [] @ [CHR ''}''] \<and> a # s = m @ s \<and> fence_tail s" by simp
    then show ?thesis by blast
  next
    case (Some m')
    with Cons.prems have m: "m = a # m'" by simp
    from Cons.IH [OF Some] obtain x t where "m' = x @ [CHR ''}'']" "s = m' @ t" "fence_tail t" by blast
    with m have "m = (a # x) @ [CHR ''}''] \<and> a # s = m @ t \<and> fence_tail t" by simp
    then show ?thesis by blast
  qed
qed

lemma last_close_complete: "fence_tail t \<Longrightarrow> last_close (x @ CHR ''}'' # t) \<noteq> None"
  by (induction x) (auto split: option.splits)

lemma fence_group_iff:
  "fence_group r \<noteq> None \<longleftrightarrow>
     (\<exists>w1 x w2 post. r = w1 @ CHR ''{'' # x @ CHR ''}'' # w2 @ ''```'' @ post
        \<and> list_all is_space w1 \<and> list_all is_space w2)"
proof
  assume "fence_group r \<noteq> None"
  then obtain rest m where d: "dropWhile is_space r = CHR ''{'' # rest" and lc: "last_close rest = Some m"
    unfolding fence_group_def by (auto split: list.splits if_splits)
  from last_close_Some [OF lc] obtain x t where m: "m = x @ [CHR ''}'']" "rest = m @ t" "fence_tail t"
    by blast
  from m(3) obtain w2 post where t: "t = w2 @ ''```'' @ post" "list_all is_space w2"
    unfolding fence_tail_iff by blast
  have "r = takeWhile is_space r @ CHR ''{'' # x @ CHR ''}'' # w2 @ ''```'' @ post"
    using takeWhile_dropWhile_id [of is_space r] d m(1,2) t(1) by simp
  with takeWhile_spaces [of r] t(2)
  show "\<exists>w1 x w2 post. r = w1 @ CHR ''{'' # x @ CHR ''}'' # w2 @ ''```'' @ post
        \<and> list_all is_space w1 \<and> list_all is_space w2"
    by blast
next
  assume "\<exists>w1 x w2 post. r = w1 @ CHR ''{'' # x @ CHR ''}'' # w2 @ ''```'' @ post
        \<and> list_all is_space w1 \<and> list_all is_space w2"
  then obtain w1 x w2 post where r: "r = w1 @ CHR ''{'' # x @ CHR ''}'' # w2 @ ''```'' @ post"
    and w: "list_all is_space w1" "list_all is_space w2" by blast
  have d: "dropWhile is_space r = CHR ''{'' # x @ CHR ''}'' # w2 @ ''```'' @ post"
    unfolding r by (rule dropWhile_spaces [OF w(1) not_space_brace])
  have "fence_tail (w2 @ ''```'' @ post)" unfolding fence_tail_iff using w(2) by blast
  then have "last_close (x @ CHR ''}'' # (w2 @ ''```'' @ post)) \<noteq> None"
    by (rule last_close_complete)
  with d show "fence_group r \<noteq> None" by (auto simp: fence_group_def)
qed

lemma fence_at_iff: "fence_at s \<noteq> None \<longleftrightarrow> (\<exists>m post. s = m @ post \<and> m \<in> lang fenced_re)"
proof
  assume "fence_at s \<noteq> None"
  then obtain r where s: "s = ''```'' @ r"
    and c: "(\<exists>r'. r = ''json'' @ r' \<and> fence_group r' \<noteq> None) \<or> fence_group r \<noteq> None"
    unfolding fence_at_def
    by (auto split: option.splits simp: strip_prefix_iff simp del: append.simps)
  have "\<exists>j r'. (j = [] \<or> j = ''json'') \<and> r = j @ r' \<and> fence_group r' \<noteq> None"
  proof (rule disjE [OF c])
    assume "\<exists>r'. r = ''json'' @ r' \<and> fence_group r' \<noteq> None"
    then show ?thesis by blast
  next
    assume "fence_group r \<noteq> None"
    then have "([] = [] \<or> [] = ''json'') \<and> r = [] @ r \<and> fence_group r \<noteq> None" by simp
    then show ?thesis by blast
  qed
  then obtain j r' where j: "j = [] \<or> j = ''json''" "r = j @ r'" "fence_group r' \<noteq> None"
    by blast
  from j(3) obtain w1 x w2 post where r': "r' = w1 @ CHR ''{'' # x @ CHR ''}'' # w2 @ ''```'' @ post"
    and w: "list_all is_space w1" "list_all is_space w2"
    unfolding fence_group_iff by blast
  let ?m = "''```'' @ j @ w1 @ CHR ''{'' # x @ CHR ''}'' # w2 @ ''```''"
  have "?m \<in> lang fenced_re" unfolding lang_fenced_re using j(1) w by blast
  moreover have "s = ?m @ post" using s j(2) r' by simp
  ultimately show "\<exists>m post. s = m @ post \<and> m \<in> lang fenced_re" by blast
next
  assume "\<exists>m post. s = m @ post \<and> m \<in> lang fenced_re"
  then obtain m post where s: "s = m @ post" and m: "m \<in> lang fenced_re" by blast
  from m obtain j w1 x w2 where m': "m = ''```'' @ j @ w1 @ CHR ''{'' # x @ CHR ''}'' # w2 @ ''```''"
    and j: "j = [] \<or> j = ''json''" and w: "list_all is_space w1" "list_all is_space w2"
    unfolding lang_fenced_re by blast
  let ?r' = "w1 @ CHR ''{'' # x @ CHR ''}'' # w2 @ ''```'' @ post"
  have g: "fence_group ?r' \<noteq> None" unfolding fence_group_iff using w by blast
  have sp: "strip_prefix ''```'' s = Some (j @ ?r')"
    unfolding strip_prefix_iff using s m' by simp
  from j show "fence_at s \<noteq> None"
  proof
    assume "j = []"
    with sp g show ?thesis by (auto simp: fence_at_def split: option.splits)
  next
    assume "j = ''json''"
    then have "strip_prefix ''json'' (j @ ?r') = Some ?r'" unfolding strip_prefix_iff by simp
    with sp g show ?thesis by (auto simp: fence_at_def split: option.splits)
  qed
qed

lemma match_fenced_iff: "match_fenced s \<noteq> None \<longleftrightarrow> (\<exists>pre t. s = pre @ t \<and> fence_at t \<noteq> None)"
proof (induction s)
  case Nil
  then show ?case by simp
next
  case (Cons a s)
  show ?case
  proof (cases "fence_at (a # s)")
    case (Some g)
    then have "a # s = [] @ (a # s) \<and> fence_at (a # s) \<noteq> None" by simp
    then have "\<exists>pre t. a # s = pre @ t \<and> fence_at t \<noteq> None" by blast
    with Some show ?thesis by simp
  next
    case None
    have "(\<exists>pre t. a # s = pre @ t \<and> fence_at t \<noteq> None) \<longleftrightarrow> (\<exists>pre t. s = pre @ t \<and> fence_at t \<noteq> None)"
    proof
      assume "\<exists>pre t. a # s = pre @ t \<and> fence_at t \<noteq> None"
      then obtain pre t where d: "a # s = pre @ t" "fence_at t \<noteq> None" by blast
      with None obtain pre' where "pre = a # pre'" by (cases pre) auto
      with d have "s = pre' @ t" by simp
      with d(2) show "\<exists>pre t. s = pre @ t \<and> fence_at t \<noteq> None" by blast
    next
      assume "\<exists>pre t. s = pre @ t \<and> fence_at t \<noteq> None"
      then obtain pre t where "s = pre @ t" "fence_at t \<noteq> None" by blast
      then have "a # s = (a # pre) @ t \<and> fence_at t \<noteq> None" by simp
      then show "\<exists>pre t. a # s = pre @ t \<and> fence_at t \<noteq> None" by blast
    qed
    with None Cons.IH show ?thesis by simp
  qed
qed

lemma match_fenced_decides: "match_fenced s \<noteq> None \<longleftrightarrow> found fenced_re s"
  unfolding match_fenced_iff fence_at_iff found_def by blast

lemma match_fenced_None: "match_braces s = None \<Longrightarrow> match_fenced s = None"
  using match_braces_decides [of s] match_fenced_decides [of s] found_fenced_imp_brace [of s]
  by blast

lemma match_braces_greedy:
  "match_braces s = Some m \<Longrightarrow>
     \<exists>pre x post. s = pre @ m @ post \<and> m = CHR ''{'' # x @ [CHR ''}'']
        \<and> CHR ''{'' \<notin> set pre \<and> CHR ''}'' \<notin> set post"
proof (induction s)
  case Nil
  then show ?case by (simp add: match_braces_Nil)
next
  case (Cons a s)
  show ?case
  proof (cases "a = CHR ''{''")
    case True
    with Cons.prems obtain m' where m': "upto_last CHR ''}'' s = Some m'" and m: "m = a # m'"
      by (auto simp: match_braces_Cons)
    from upto_last_Some [OF m'] obtain x t where "m' = x @ [CHR ''}'']" "s = m' @ t" "CHR ''}'' \<notin> set t"
      by blast
    with m True have "a # s = [] @ m @ t \<and> m = CHR ''{'' # x @ [CHR ''}'']
        \<and> CHR ''{'' \<notin> set [] \<and> CHR ''}'' \<notin> set t"
      by simp
    then show ?thesis by blast
  next
    case False
    with Cons.prems have "match_braces s = Some m" by (simp add: match_braces_Cons)
    from Cons.IH [OF this] obtain pre x post where "s = pre @ m @ post" "m = CHR ''{'' # x @ [CHR ''}'']"
      "CHR ''{'' \<notin> set pre" "CHR ''}'' \<notin> set post"
      by blast
    with False have "a # s = (a # pre) @ m @ post \<and> m = CHR ''{'' # x @ [CHR ''}'']
        \<and> CHR ''{'' \<notin> set (a # pre) \<and> CHR ''}'' \<notin> set post"
      by simp
    then show ?thesis by blast
  qed
qed

lemma parseResponse_no_braces:
  "match_braces (trim raw) = None \<Longrightarrow>
     parseResponse jp raw = Inl (GeminiError ''Invalid response format from Gemini API'')"
  by (simp add: parseResponse_def Let_def match_fenced_None)

lemma parseResponse_braces:
  "match_braces (trim raw) = Some m \<Longrightarrow>
     parseResponse jp raw =
       (case jp m of
          None \<Rightarrow> Inl (Error ''SyntaxError'')
        | Some p \<Rightarrow>
            if truthy (p ''title'') \<and> truthy (p ''difficulty'') \<and> truthy (p ''description'')
            then Inr (p(''topics'' := if isArray (p ''topics'') then p ''topics'' else Some (JArr []),
                        ''step_by_step_explanation'' :=
                           if isArray (p ''step_by_step_explanation'')
                           then p ''step_by_step_explanation'' else Some (JArr []),
                        ''pseudocode'' := if isArray (p ''pseudocode'') then p ''pseudocode'' else None))
            else Inl (GeminiError ''Incomplete response from Gemini API''))"
  by (auto simp: parseResponse_def Let_def split: option.splits)

text \<open>
  Claim C10. A text in which \<^verbatim>\<open>/\{[\s\S]*\}/\<close> finds no match has no match of the
  fenced-block pattern either, for the regular expressions and for the functions that
  compute the matches; so when the first match fails on the trimmed response, the
  parser fails with the invalid-response-format error, whatever the response is.
\<close>

theorem fenced_fallback_unreachable:
  "(\<not> found brace_re s \<longrightarrow> \<not> found fenced_re s)
   \<and> (match_braces s = None \<longrightarrow> match_fenced s = None)
   \<and> (match_braces (trim raw) = None \<longrightarrow>
        parseResponse jp raw = Inl (GeminiError ''Invalid response format from Gemini API''))"
  using found_fenced_imp_brace [of s] match_fenced_None [of s] parseResponse_no_braces [of raw jp]
  by blast

theorem fenced_fallback_unreachable_witness:
  "match_braces ''```json } { ```'' = None
   \<and> match_fenced ''```json } { ```'' = None
   \<and> \<not> found fenced_re ''```json } { ```''
   \<and> match_braces (trim '' ```json } { ``` '') = None
   \<and> parseResponse (\<lambda>m. None) '' ```json } { ``` ''
        = Inl (GeminiError ''Invalid response format from Gemini API'')"
proof -
  have a: "match_braces ''```json } { ```'' = None"
    by (simp add: match_braces_def)
  have b: "match_braces (trim '' ```json } { ``` '') = None"
    by (simp add: match_braces_def trim_def is_space_def)
  from a have c: "\<not> found brace_re ''```json } { ```''"
    using match_braces_decides [of "''```json } { ```''"] by simp
  show ?thesis
    using a b c fenced_fallback_unreachable [of "''```json } { ```''" "'' ```json } { ``` ''" "\<lambda>m. None"]
    by blast
qed

text \<open>
  Claim C5 as stated fails. In the response below an object literal is located and
  decoded, and the decoded object has all three of \<^verbatim>\<open>title\<close>, \<^verbatim>\<open>difficulty\<close> and
  \<^verbatim>\<open>description\<close>; the parser fails all the same, because the title is the empty
  string and the check is for truthiness.
\<close>

theorem parseResponse_empty_title_counterexample:
  "match_braces (trim empty_title_text) = Some empty_title_text
   \<and> empty_title_JSON_parse empty_title_text = Some empty_title_object
   \<and> empty_title_object ''title'' = Some (JStr [])
   \<and> empty_title_object ''difficulty'' = Some (JStr ''Easy'')
   \<and> empty_title_object ''description'' = Some (JStr ''Decide whether an integer is even.'')
   \<and> parseResponse empty_title_JSON_parse empty_title_text
        = Inl (GeminiError ''Incomplete response from Gemini API'')"
  by (simp add: parseResponse_def Let_def match_braces_def trim_def is_space_def
        empty_title_text_def empty_title_JSON_parse_def empty_title_object_def)

text \<open>
  Claim C5, amended. The parser fails exactly when the brace pattern finds no match
  in the trimmed response, or \<^verbatim>\<open>JSON.parse\<close> throws on the matched text, or one of
  \<^verbatim>\<open>title\<close>, \<^verbatim>\<open>difficulty\<close>, \<^verbatim>\<open>description\<close> of the decoded object is missing or
  falsy (empty string, zero, false, null). Otherwise it returns the decoded object
  with \<^verbatim>\<open>topics\<close> and \<^verbatim>\<open>step_by_step_explanation\<close> replaced by the empty list when they
  are not lists, \<^verbatim>\<open>pseudocode\<close> removed when it is not a list, and every other property
  as decoded; the optional properties never decide between failure and success.
\<close>

theorem parseResponse_outcome:
  "(isl (parseResponse jp raw) \<longleftrightarrow>
      (case match_braces (trim raw) of
         None \<Rightarrow> True
       | Some m \<Rightarrow>
           (case jp m of
              None \<Rightarrow> True
            | Some p \<Rightarrow> \<not> (truthy (p ''title'') \<and> truthy (p ''difficulty'') \<and> truthy (p ''description'')))))
   \<and> (\<forall>r. parseResponse jp raw = Inr r \<longrightarrow>
        (\<exists>m p. match_braces (trim raw) = Some m \<and> jp m = Some p
           \<and> r ''topics'' = (if isArray (p ''topics'') then p ''topics'' else Some (JArr []))
           \<and> r ''step_by_step_explanation'' =
               (if isArray (p ''step_by_step_explanation'') then p ''step_by_step_explanation''
                else Some (JArr []))
           \<and> r ''pseudocode'' = (if isArray (p ''pseudocode'') then p ''pseudocode'' else None)
           \<and> (\<forall>key. key \<notin> {''topics'', ''step_by_step_explanation'', ''pseudocode''} \<longrightarrow> r key = p key)))"
proof (cases "match_braces (trim raw)")
  case None
  then show ?thesis by (simp add: parseResponse_no_braces)
next
  case (Some m)
  show ?thesis
  proof (cases "jp m")
    case None
    with Some show ?thesis by (simp add: parseResponse_braces)
  next
    case (Some p)
    with \<open>match_braces (trim raw) = Some m\<close> show ?thesis
      by (auto simp: parseResponse_braces)
  qed
qed

theorem parseResponse_outcome_witness:
  "parseResponse drifted_JSON_parse drifted_text =
     Inr (drifted_object(''topics'' \<mapsto> JArr [], ''step_by_step_explanation'' \<mapsto> JArr [],
                         ''pseudocode'' := None))
   \<and> \<not> isl (parseResponse drifted_JSON_parse drifted_text)
   \<and> isl (parseResponse drifted_JSON_parse ''no object here'')
   \<and> isl (parseResponse drifted_JSON_parse ''{not json}'')"
proof -
  have m: "match_braces (trim drifted_text) =
      Some ''{\"title\":\"Even or odd\",\"difficulty\":\"Easy\",\"description\":\"Decide whether an integer is even.\",\"topics\":\"math\",\"pseudocode\":7}''"
    by (simp add: match_braces_def trim_def is_space_def drifted_text_def)
  have p: "drifted_JSON_parse ''{\"title\":\"Even or odd\",\"difficulty\":\"Easy\",\"description\":\"Decide whether an integer is even.\",\"topics\":\"math\",\"pseudocode\":7}''
      = Some drifted_object"
    by (simp add: drifted_JSON_parse_def)
  have t: "truthy (drifted_object ''title'')" "truthy (drifted_object ''difficulty'')"
    "truthy (drifted_object ''description'')" "\<not> isArray (drifted_object ''topics'')"
    "\<not> isArray (drifted_object ''step_by_step_explanation'')" "\<not> isArray (drifted_object ''pseudocode'')"
    by (simp_all add: drifted_object_def)
  have n: "match_braces (trim ''no object here'') = None"
    by (simp add: match_braces_def trim_def is_space_def)
  have o: "match_braces (trim ''{not json}'') = Some ''{not json}''" "drifted_JSON_parse ''{not json}'' = None"
    by (simp_all add: match_braces_def trim_def is_space_def drifted_JSON_parse_def)
  from parseResponse_outcome [of drifted_JSON_parse drifted_text] m p t
  obtain r where r: "parseResponse drifted_JSON_parse drifted_text = Inr r"
    "r ''topics'' = Some (JArr [])" "r ''step_by_step_explanation'' = Some (JArr [])"
    "r ''pseudocode'' = None"
    "\<forall>key. key \<notin> {''topics'', ''step_by_step_explanation'', ''pseudocode''} \<longrightarrow> r key = drifted_object key"
    by (cases "parseResponse drifted_JSON_parse drifted_text") auto
  have "r = drifted_object(''topics'' \<mapsto> JArr [], ''step_by_step_explanation'' \<mapsto> JArr [],
                         ''pseudocode'' := None)"
  proof
    fix key show "r key = (drifted_object(''topics'' \<mapsto> JArr [],
        ''step_by_step_explanation'' \<mapsto> JArr [], ''pseudocode'' := None)) key"
      using r(2-5) by auto
  qed
  with r(1) parseResponse_outcome [of drifted_JSON_parse "''no object here''"]
    parseResponse_outcome [of drifted_JSON_parse "''{not json}''"] n o
  show ?thesis by simp
qed

section \<open>Properties of the generation endpoint\<close>

declare settle.simps [simp del]

declare make_batches.simps [simp del]

lemma processTitle_status:
  "total (generationStatus (processTitle E t st)) = total (generationStatus st)
   \<and> completed (generationStatus (processTitle E t st)) + failed (generationStatus (processTitle E t st))
       = completed (generationStatus st) + failed (generationStatus st) + 1
   \<and> length (errors (generationStatus (processTitle E t st)))
        + completed (generationStatus (processTitle E t st))
       = length (errors (generationStatus st)) + completed (generationStatus st) + 1"
  by (cases t) (simp add: processTitle_def Let_def split: sum.splits)

lemma settle_status:
  "total (generationStatus (settle E pending st)) = total (generationStatus st)
   \<and> completed (generationStatus (settle E pending st)) + failed (generationStatus (settle E pending st))
       = completed (generationStatus st) + failed (generationStatus st) + length pending
   \<and> length (errors (generationStatus (settle E pending st)))
        + completed (generationStatus (settle E pending st))
       = length (errors (generationStatus st)) + completed (generationStatus st) + length pending"
proof (induction E pending st rule: settle.induct)
  case (1 E pending st)
  show ?case
  proof (cases "pending = []")
    case True
    then show ?thesis by (simp add: settle.simps)
  next
    case False
    define n where "n = settles_next E (map (\<lambda>(b, k, title). (b, k)) pending) mod length pending"
    from False have n: "n < length pending" unfolding n_def by simp
    let ?rest = "take n pending @ drop (Suc n) pending"
    let ?st = "processTitle E (pending ! n) st"
    have unfold: "settle E pending st = settle E ?rest ?st"
      using False by (subst settle.simps) (simp add: n_def Let_def)
    have len: "length ?rest + 1 = length pending" using n by simp
    let ?T = "\<lambda>s. total (generationStatus s)"
    let ?C = "\<lambda>s. completed (generationStatus s)"
    let ?F = "\<lambda>s. failed (generationStatus s)"
    let ?L = "\<lambda>s. length (errors (generationStatus s))"
    from "1.IH" [OF False n_def]
    have i: "?T (settle E ?rest ?st) = ?T ?st"
      "?C (settle E ?rest ?st) + ?F (settle E ?rest ?st) = ?C ?st + ?F ?st + length ?rest"
      "?L (settle E ?rest ?st) + ?C (settle E ?rest ?st) = ?L ?st + ?C ?st + length ?rest"
      by blast+
    from processTitle_status [of E "pending ! n" st]
    have p: "?T ?st = ?T st" "?C ?st + ?F ?st = ?C st + ?F st + 1" "?L ?st + ?C ?st = ?L st + ?C st + 1"
      by blast+
    have "?T (settle E ?rest ?st) = ?T st" using i(1) p(1) by simp
    moreover have "?C (settle E ?rest ?st) + ?F (settle E ?rest ?st) = ?C st + ?F st + length pending"
      using i(2) p(2) len by linarith
    moreover have "?L (settle E ?rest ?st) + ?C (settle E ?rest ?st) = ?L st + ?C st + length pending"
      using i(3) p(3) len by linarith
    ultimately show ?thesis unfolding unfold by blast
  qed
qed

lemma start_task_status:
  "total (generationStatus (fst (start_task E t st))) = total (generationStatus st)
   \<and> completed (generationStatus (fst (start_task E t st))) + failed (generationStatus (fst (start_task E t st)))
        + length (snd (start_task E t st))
       = completed (generationStatus st) + failed (generationStatus st) + 1
   \<and> length (errors (generationStatus (fst (start_task E t st))))
        + completed (generationStatus (fst (start_task E t st))) + length (snd (start_task E t st))
       = length (errors (generationStatus st)) + completed (generationStatus st) + 1"
proof (cases t)
  case (fields b k title)
  let ?sta = "st\<lparr>trace := trace st @ [Started b k]\<rparr>"
  show ?thesis
  proof (cases "isl (validateAndSanitizeTitle title)")
    case True
    then have "start_task E t st = (processTitle E t ?sta, [])"
      unfolding fields by (simp add: start_task_def Let_def)
    with processTitle_status [of E t ?sta] show ?thesis by simp
  next
    case False
    then show ?thesis unfolding fields by (simp add: start_task_def Let_def)
  qed
qed

lemma start_tasks_status:
  "total (generationStatus (fst (start_tasks E ts st))) = total (generationStatus st)
   \<and> completed (generationStatus (fst (start_tasks E ts st))) + failed (generationStatus (fst (start_tasks E ts st)))
        + length (snd (start_tasks E ts st))
       = completed (generationStatus st) + failed (generationStatus st) + length ts
   \<and> length (errors (generationStatus (fst (start_tasks E ts st))))
        + completed (generationStatus (fst (start_tasks E ts st))) + length (snd (start_tasks E ts st))
       = length (errors (generationStatus st)) + completed (generationStatus st) + length ts"
proof (induction ts arbitrary: st)
  case Nil
  then show ?case by simp
next
  case (Cons t ts)
  let ?T = "\<lambda>s. total (generationStatus s)"
  let ?C = "\<lambda>s. completed (generationStatus s)"
  let ?F = "\<lambda>s. failed (generationStatus s)"
  let ?L = "\<lambda>s. length (errors (generationStatus s))"
  obtain sta p where a: "start_task E t st = (sta, p)" by (cases "start_task E t st")
  obtain stb ps where b: "start_tasks E ts sta = (stb, ps)" by (cases "start_tasks E ts sta")
  have r: "start_tasks E (t # ts) st = (stb, p @ ps)" by (simp add: a b)
  from start_task_status [of E t st] a
  have one: "?T sta = ?T st" "?C sta + ?F sta + length p = ?C st + ?F st + 1"
    "?L sta + ?C sta + length p = ?L st + ?C st + 1"
    by simp_all
  from Cons.IH [of sta] b
  have more: "?T stb = ?T sta" "?C stb + ?F stb + length ps = ?C sta + ?F sta + length ts"
    "?L stb + ?C stb + length ps = ?L sta + ?C sta + length ts"
    by simp_all
  have "?T stb = ?T st" using one(1) more(1) by simp
  moreover have "?C stb + ?F stb + length (p @ ps) = ?C st + ?F st + length (t # ts)"
    using one(2) more(2) by simp
  moreover have "?L stb + ?C stb + length (p @ ps) = ?L st + ?C st + length (t # ts)"
    using one(3) more(3) by simp
  ultimately show ?case unfolding r by simp
qed

lemma length_batch_tasks: "length (batch_tasks b batch) = length batch"
  by (simp add: batch_tasks_def)

lemma batch_tasks_nth: "batch_tasks b batch = map (\<lambda>k. (b, k, batch ! k)) [0..<length batch]"
  unfolding batch_tasks_def by (rule nth_equalityI) (simp_all add: nth_enumerate_eq)

lemma run_batch_status:
  "total (generationStatus (run_batch E b batch st)) = total (generationStatus st)
   \<and> completed (generationStatus (run_batch E b batch st)) + failed (generationStatus (run_batch E b batch st))
       = completed (generationStatus st) + failed (generationStatus st) + length batch
   \<and> length (errors (generationStatus (run_batch E b batch st)))
        + completed (generationStatus (run_batch E b batch st))
       = length (errors (generationStatus st)) + completed (generationStatus st) + length batch"
proof -
  let ?T = "\<lambda>s. total (generationStatus s)"
  let ?C = "\<lambda>s. completed (generationStatus s)"
  let ?F = "\<lambda>s. failed (generationStatus s)"
  let ?L = "\<lambda>s. length (errors (generationStatus s))"
  obtain sta pending where a: "start_tasks E (batch_tasks b batch) st = (sta, pending)"
    by (cases "start_tasks E (batch_tasks b batch) st")
  have r: "run_batch E b batch st = settle E pending sta" by (simp add: run_batch_def a)
  from start_tasks_status [of E "batch_tasks b batch" st] a
  have one: "?T sta = ?T st" "?C sta + ?F sta + length pending = ?C st + ?F st + length batch"
    "?L sta + ?C sta + length pending = ?L st + ?C st + length batch"
    by (simp_all add: length_batch_tasks)
  from settle_status [of E pending sta]
  have two: "?T (settle E pending sta) = ?T sta"
    "?C (settle E pending sta) + ?F (settle E pending sta) = ?C sta + ?F sta + length pending"
    "?L (settle E pending sta) + ?C (settle E pending sta) = ?L sta + ?C sta + length pending"
    by blast+
  have "?T (settle E pending sta) = ?T st" using one(1) two(1) by simp
  moreover have "?C (settle E pending sta) + ?F (settle E pending sta) = ?C st + ?F st + length batch"
    using one(2) two(2) by simp
  moreover have "?L (settle E pending sta) + ?C (settle E pending sta) = ?L st + ?C st + length batch"
    using one(3) two(3) by simp
  ultimately show ?thesis unfolding r by blast
qed

lemma run_batches_status:
  "total (generationStatus (run_batches E n b batches st)) = total (generationStatus st)
   \<and> completed (generationStatus (run_batches E n b batches st))
        + failed (generationStatus (run_batches E n b batches st))
       = completed (generationStatus st) + failed (generationStatus st) + length (concat batches)
   \<and> length (errors (generationStatus (run_batches E n b batches st)))
        + completed (generationStatus (run_batches E n b batches st))
       = length (errors (generationStatus st)) + completed (generationStatus st) + length (concat batches)"
proof (induction batches arbitrary: b st)
  case Nil
  then show ?case by simp
next
  case (Cons batch rest)
  let ?sta = "run_batch E b batch st"
  let ?stb = "if int b < int n - 1
              then ?sta\<lparr>trace := trace ?sta @ [BatchSleep (GENERATION_DELAY * 2)]\<rparr> else ?sta"
  have eq: "generationStatus ?stb = generationStatus ?sta" by simp
  have unfold: "run_batches E n b (batch # rest) st = run_batches E n (Suc b) rest ?stb"
    by (simp add: Let_def)
  from Cons.IH [of "Suc b" ?stb] run_batch_status [of E b batch st]
  show ?case unfolding unfold eq by simp
qed

lemma make_batches_concat: "concat (make_batches i titles) = drop i titles"
proof (induction i titles rule: make_batches.induct)
  case (1 i titles)
  show ?case
  proof (cases "i < length titles")
    case True
    have "take 3 (drop i titles) @ drop (i + 3) titles = drop i titles"
      by (metis add.commute append_take_drop_id drop_drop)
    with "1.IH" [OF True] True show ?thesis
      by (subst make_batches.simps) (simp add: slice_def MAX_CONCURRENT_GENERATIONS_def)
  next
    case False
    then show ?thesis by (subst make_batches.simps) simp
  qed
qed


lemma as_titles_strings:
  "list_all (\<lambda>t. 1 \<le> length t \<and> length t \<le> 200) titles \<Longrightarrow> as_titles (map JStr titles) = Some titles"
  by (induction titles) auto

lemma as_titles_Some:
  "as_titles xs = Some titles \<Longrightarrow>
     xs = map JStr titles \<and> list_all (\<lambda>t. 1 \<le> length t \<and> length t \<le> 200) titles"
proof (induction xs arbitrary: titles)
  case Nil
  then show ?case by simp
next
  case (Cons x xs)
  from Cons.prems obtain t ts where x: "as_title x = Some t" and ts: "as_titles xs = Some ts"
    and titles: "titles = t # ts"
    by (auto split: option.splits)
  from x have "x = JStr t \<and> 1 \<le> length t \<and> length t \<le> 200"
    by (cases x) (auto split: if_splits)
  with Cons.IH [OF ts] titles show ?case by simp
qed

lemma POST_accepted:
  fixes db0 :: 'db and E :: "'db env"
  assumes "validateGenerateRequest (zod_message E) d = Inr titles" "1 \<le> length titles" "length titles \<le> 20"
  defines "st \<equiv> run_batches E (length (make_batches 0 titles)) 0 (make_batches 0 titles)
                   \<lparr>generationStatus = \<lparr>total = length titles, completed = 0, failed = 0, errors = []\<rparr>,
                    generatedQuestions = [], db = db0, trace = []\<rparr>"
  shows "resp_data (fst (POST E (Some d) db0)) = Some (generationStatus st)"
    and "resp_status (fst (POST E (Some d) db0)) \<in> {200, 207, 500}"
    and "fst (snd (POST E (Some d) db0)) = db st"
    and "snd (snd (POST E (Some d) db0)) = trace st"
proof -
  from assms(2) have ne: "titles \<noteq> []" by auto
  show "resp_data (fst (POST E (Some d) db0)) = Some (generationStatus st)"
    and "resp_status (fst (POST E (Some d) db0)) \<in> {200, 207, 500}"
    and "fst (snd (POST E (Some d) db0)) = db st"
    and "snd (snd (POST E (Some d) db0)) = trace st"
    using assms(1,3) ne unfolding st_def by (simp_all add: POST_def Let_def)
qed

lemma POST_ledger:
  assumes "validateGenerateRequest (zod_message E) d = Inr titles" "1 \<le> length titles" "length titles \<le> 20"
  shows "\<exists>gs. resp_data (fst (POST E (Some d) db0)) = Some gs
          \<and> completed gs + failed gs = total gs \<and> total gs = length titles
          \<and> length (errors gs) = failed gs
          \<and> resp_status (fst (POST E (Some d) db0)) \<in> {200, 207, 500}"
proof -
  let ?init = "\<lparr>generationStatus = \<lparr>total = length titles, completed = 0, failed = 0, errors = []\<rparr>,
               generatedQuestions = [], db = db0, trace = []\<rparr>"
  let ?bs = "make_batches 0 titles"
  let ?st = "run_batches E (length ?bs) 0 ?bs ?init"
  let ?gs = "generationStatus ?st"
  have r: "resp_data (fst (POST E (Some d) db0)) = Some ?gs"
    "resp_status (fst (POST E (Some d) db0)) \<in> {200, 207, 500}"
    by (rule POST_accepted [OF assms])+
  have c: "length (concat ?bs) = length titles" by (simp add: make_batches_concat)
  have "total ?gs = total (generationStatus ?init)
      \<and> completed ?gs + failed ?gs
          = completed (generationStatus ?init) + failed (generationStatus ?init) + length (concat ?bs)
      \<and> length (errors ?gs) + completed ?gs
          = length (errors (generationStatus ?init)) + completed (generationStatus ?init)
              + length (concat ?bs)"
    by (rule run_batches_status)
  then have "total ?gs = length titles" "completed ?gs + failed ?gs = length titles"
    "length (errors ?gs) + completed ?gs = length titles"
    unfolding c by simp_all
  then have "completed ?gs + failed ?gs = total ?gs \<and> total ?gs = length titles
      \<and> length (errors ?gs) = failed ?gs"
    by simp
  with r show ?thesis by blast
qed

lemma settle_Nil: "settle E [] st = st"
  by (simp add: settle.simps)

lemma settle_Cons:
  "settle E (t # ts) st =
     (let n = settles_next E (map (\<lambda>(b, k, title). (b, k)) (t # ts)) mod length (t # ts)
      in settle E (take n (t # ts) @ drop (Suc n) (t # ts)) (processTitle E ((t # ts) ! n) st))"
  by (subst settle.simps) simp

lemma make_batches_step:
  "i < length titles \<Longrightarrow>
     make_batches i titles =
       slice i (i + MAX_CONCURRENT_GENERATIONS) titles # make_batches (i + MAX_CONCURRENT_GENERATIONS) titles"
  by (subst make_batches.simps) simp

lemma make_batches_done: "\<not> i < length titles \<Longrightarrow> make_batches i titles = []"
  by (subst make_batches.simps) simp

lemma validate_request_body:
  assumes "1 \<le> length titles" "length titles \<le> 20" "\<forall>t \<in> set titles. 1 \<le> length t \<and> length t \<le> 200"
  shows "validateGenerateRequest zm (request_body titles) = Inr titles"
proof -
  from assms(3) have "list_all (\<lambda>t. 1 \<le> length t \<and> length t \<le> 200) titles"
    by (simp add: list_all_iff)
  then have "as_titles (map JStr titles) = Some titles" by (rule as_titles_strings)
  with assms(1,2) show ?thesis
    by (simp add: validateGenerateRequest_def GenerateRequestSchema_parse_def request_body_def)
qed

lemma settle_unfold:
  assumes "pending \<noteq> []"
    and "n = settles_next E (map (\<lambda>(b, k, title). (b, k)) pending) mod length pending"
  shows "n < length pending"
    and "settle E pending st
          = settle E (take n pending @ drop (Suc n) pending) (processTitle E (pending ! n) st)"
proof -
  from assms show "n < length pending" by simp
  show "settle E pending st
          = settle E (take n pending @ drop (Suc n) pending) (processTitle E (pending ! n) st)"
    using assms(1) by (subst settle.simps) (simp add: assms(2) Let_def)
qed

lemma set_remove_nth:
  assumes "n < length xs"
  shows "set xs = insert (xs ! n) (set (take n xs @ drop (Suc n) xs))"
proof -
  have "xs = take n xs @ xs ! n # drop (Suc n) xs" using assms by (rule id_take_nth_drop)
  then have "set xs = set (take n xs @ xs ! n # drop (Suc n) xs)"
    by (rule arg_cong [where f = set])
  then show ?thesis by simp
qed

lemma sum_list_remove_nth:
  fixes f :: "'a \<Rightarrow> int"
  assumes "n < length xs"
  shows "sum_list (map f xs) = f (xs ! n) + sum_list (map f (take n xs @ drop (Suc n) xs))"
proof -
  have "xs = take n xs @ xs ! n # drop (Suc n) xs" using assms by (rule id_take_nth_drop)
  then have "sum_list (map f xs) = sum_list (map f (take n xs @ xs ! n # drop (Suc n) xs))"
    by (rule arg_cong [where f = "\<lambda>z. sum_list (map f z)"])
  then show ?thesis by simp
qed

lemma sum_list_indicator:
  "sum_list (map (\<lambda>x. if P x then 1 else 0) xs) = int (length (filter P xs))"
  by (induction xs) simp_all

lemma start_task_cases:
  obtains (settled) b k title where "t = (b, k, title)"
      "start_task E t st = (processTitle E t (st\<lparr>trace := trace st @ [Started b k]\<rparr>), [])"
      "isl (validateAndSanitizeTitle title)"
    | (pending) tr where "start_task E t st = (st\<lparr>trace := tr\<rparr>, [t])"
proof (cases t)
  case (fields b k title)
  show thesis
  proof (cases "isl (validateAndSanitizeTitle title)")
    case True
    then have "start_task E t st = (processTitle E t (st\<lparr>trace := trace st @ [Started b k]\<rparr>), [])"
      unfolding fields by (simp add: start_task_def Let_def)
    with fields show thesis using True by (rule settled)
  next
    case False
    then have "start_task E t st
        = (st\<lparr>trace := (if 0 < k then trace st @ [Started b k, TaskSleep b k GENERATION_DELAY]
                            else trace st @ [Started b k])\<rparr>, [t])"
      unfolding fields by (simp add: start_task_def Let_def)
    then show thesis by (rule pending)
  qed
qed

subsection \<open>What holds of every task holds of the run\<close>

text \<open>An invariant of the state that every task of \<open>S\<close> keeps, and that does not look
  at the trace, is kept by the run of batches whose tasks are in \<open>S\<close>.\<close>

lemma settle_invariant:
  assumes "\<And>t st. t \<in> S \<Longrightarrow> Inv st \<Longrightarrow> Inv (processTitle E t st)"
    and "Inv st" "set pending \<subseteq> S"
  shows "Inv (settle E pending st)"
  using assms
proof (induction E pending st rule: settle.induct)
  case (1 E pending st)
  show ?case
  proof (cases "pending = []")
    case True
    with "1.prems"(2) show ?thesis by (simp add: settle_Nil)
  next
    case False
    define n where "n = settles_next E (map (\<lambda>(b, k, title). (b, k)) pending) mod length pending"
    note u = settle_unfold [OF False n_def]
    let ?rest = "take n pending @ drop (Suc n) pending"
    let ?sta = "processTitle E (pending ! n) st"
    have "pending ! n \<in> S" using "1.prems"(3) nth_mem [OF u(1)] by blast
    then have a: "Inv ?sta" using "1.prems"(2) by (rule "1.prems"(1))
    have "set ?rest \<subseteq> set pending" by (auto dest: in_set_takeD in_set_dropD)
    with "1.prems"(3) have b: "set ?rest \<subseteq> S" by blast
    from "1.IH" [OF False n_def "1.prems"(1) a b] show ?thesis unfolding u(2) .
  qed
qed

lemma start_task_invariant:
  assumes "\<And>t st. t \<in> S \<Longrightarrow> Inv st \<Longrightarrow> Inv (processTitle E t st)"
    and "\<And>st tr. Inv (st\<lparr>trace := tr\<rparr>) = Inv st"
    and "Inv st" "t \<in> S"
  shows "Inv (fst (start_task E t st)) \<and> set (snd (start_task E t st)) \<subseteq> S"
proof (cases rule: start_task_cases [of t E st])
  case (settled b k title)
  have "Inv (st\<lparr>trace := trace st @ [Started b k]\<rparr>)" using assms(3) by (simp add: assms(2))
  with assms(4) have "Inv (processTitle E t (st\<lparr>trace := trace st @ [Started b k]\<rparr>))"
    by (rule assms(1))
  then show ?thesis unfolding settled(2) by simp
next
  case (pending tr)
  then show ?thesis using assms(3,4) by (simp add: assms(2))
qed

lemma start_tasks_invariant:
  assumes "\<And>t st. t \<in> S \<Longrightarrow> Inv st \<Longrightarrow> Inv (processTitle E t st)"
    and "\<And>st tr. Inv (st\<lparr>trace := tr\<rparr>) = Inv st"
    and "Inv st" "set ts \<subseteq> S"
  shows "Inv (fst (start_tasks E ts st)) \<and> set (snd (start_tasks E ts st)) \<subseteq> S"
  using assms(3,4)
proof (induction ts arbitrary: st)
  case Nil
  then show ?case by simp
next
  case (Cons t ts)
  obtain sta p where a: "start_task E t st = (sta, p)" by (cases "start_task E t st")
  obtain stb ps where b: "start_tasks E ts sta = (stb, ps)" by (cases "start_tasks E ts sta")
  have r: "start_tasks E (t # ts) st = (stb, p @ ps)" by (simp add: a b)
  from Cons.prems(2) have t: "t \<in> S" and ts: "set ts \<subseteq> S" by simp_all
  from start_task_invariant [of S Inv E st t, OF assms(1,2) Cons.prems(1) t] a
  have one: "Inv sta" "set p \<subseteq> S" by simp_all
  from Cons.IH [OF one(1) ts] b have "Inv stb" "set ps \<subseteq> S" by simp_all
  with one(2) show ?case unfolding r by simp
qed

lemma set_batch_tasks: "t \<in> set (batch_tasks b batch) \<Longrightarrow> snd (snd t) \<in> set batch"
  by (auto simp: batch_tasks_nth)

lemma run_batch_invariant:
  assumes "\<And>t st. t \<in> S \<Longrightarrow> Inv st \<Longrightarrow> Inv (processTitle E t st)"
    and "\<And>st tr. Inv (st\<lparr>trace := tr\<rparr>) = Inv st"
    and "Inv st" "set (batch_tasks b batch) \<subseteq> S"
  shows "Inv (run_batch E b batch st)"
proof -
  obtain sta pending where a: "start_tasks E (batch_tasks b batch) st = (sta, pending)"
    by (cases "start_tasks E (batch_tasks b batch) st")
  have r: "run_batch E b batch st = settle E pending sta" by (simp add: run_batch_def a)
  from start_tasks_invariant [of S Inv E st "batch_tasks b batch", OF assms] a
  have "Inv sta" "set pending \<subseteq> S" by simp_all
  with assms(1) show ?thesis unfolding r by (rule settle_invariant)
qed

lemma run_batches_invariant:
  assumes "\<And>t st. t \<in> S \<Longrightarrow> Inv st \<Longrightarrow> Inv (processTitle E t st)"
    and "\<And>st tr. Inv (st\<lparr>trace := tr\<rparr>) = Inv st"
    and "Inv st" "set (all_tasks b batches) \<subseteq> S"
  shows "Inv (run_batches E n b batches st)"
  using assms(3,4)
proof (induction batches arbitrary: b st)
  case Nil
  then show ?case by simp
next
  case (Cons batch rest)
  let ?sta = "run_batch E b batch st"
  let ?stb = "if int b < int n - 1
              then ?sta\<lparr>trace := trace ?sta @ [BatchSleep (GENERATION_DELAY * 2)]\<rparr> else ?sta"
  have unfold: "run_batches E n b (batch # rest) st = run_batches E n (Suc b) rest ?stb"
    by (simp add: Let_def)
  from Cons.prems(2) have sub: "set (batch_tasks b batch) \<subseteq> S" "set (all_tasks (Suc b) rest) \<subseteq> S"
    by simp_all
  have "Inv ?sta" using assms(1,2) Cons.prems(1) sub(1) by (rule run_batch_invariant)
  then have "Inv ?stb" by (simp add: assms(2))
  from Cons.IH [OF this sub(2)] show ?case unfolding unfold .
qed

text \<open>A quantity of the state that a task \<open>t\<close> raises by at most \<open>f t\<close>, and that does not
  look at the trace, is raised by the run by at most the sum of \<open>f\<close> over its tasks.\<close>

lemma settle_bound:
  fixes mu :: "'db run_state \<Rightarrow> int"
  assumes "\<And>t st. mu (processTitle E t st) \<le> mu st + f t"
  shows "mu (settle E pending st) \<le> mu st + sum_list (map f pending)"
  using assms
proof (induction E pending st rule: settle.induct)
  case (1 E pending st)
  show ?case
  proof (cases "pending = []")
    case True
    then show ?thesis by (simp add: settle_Nil)
  next
    case False
    define n where "n = settles_next E (map (\<lambda>(b, k, title). (b, k)) pending) mod length pending"
    note u = settle_unfold [OF False n_def]
    let ?rest = "take n pending @ drop (Suc n) pending"
    let ?sta = "processTitle E (pending ! n) st"
    from "1.IH" [OF False n_def "1.prems"]
    have "mu (settle E ?rest ?sta) \<le> mu ?sta + sum_list (map f ?rest)" .
    moreover have "mu ?sta \<le> mu st + f (pending ! n)" by (rule "1.prems")
    moreover have "sum_list (map f pending) = f (pending ! n) + sum_list (map f ?rest)"
      using u(1) by (rule sum_list_remove_nth)
    ultimately show ?thesis unfolding u(2) by linarith
  qed
qed

lemma start_task_bound:
  fixes mu :: "'db run_state \<Rightarrow> int"
  assumes "\<And>t st. mu (processTitle E t st) \<le> mu st + f t"
    and "\<And>st tr. mu (st\<lparr>trace := tr\<rparr>) = mu st"
  shows "mu (fst (start_task E t st)) + sum_list (map f (snd (start_task E t st))) \<le> mu st + f t"
proof (cases rule: start_task_cases [of t E st])
  case (settled b k title)
  have "mu (processTitle E t (st\<lparr>trace := trace st @ [Started b k]\<rparr>))
          \<le> mu (st\<lparr>trace := trace st @ [Started b k]\<rparr>) + f t"
    by (rule assms(1))
  then show ?thesis unfolding settled(2) by (simp add: assms(2))
next
  case (pending tr)
  then show ?thesis by (simp add: assms(2))
qed

lemma start_tasks_bound:
  fixes mu :: "'db run_state \<Rightarrow> int"
  assumes "\<And>t st. mu (processTitle E t st) \<le> mu st + f t"
    and "\<And>st tr. mu (st\<lparr>trace := tr\<rparr>) = mu st"
  shows "mu (fst (start_tasks E ts st)) + sum_list (map f (snd (start_tasks E ts st)))
          \<le> mu st + sum_list (map f ts)"
proof (induction ts arbitrary: st)
  case Nil
  then show ?case by simp
next
  case (Cons t ts)
  obtain sta p where a: "start_task E t st = (sta, p)" by (cases "start_task E t st")
  obtain stb ps where b: "start_tasks E ts sta = (stb, ps)" by (cases "start_tasks E ts sta")
  have r: "start_tasks E (t # ts) st = (stb, p @ ps)" by (simp add: a b)
  from start_task_bound [of mu E f t st, OF assms] a
  have "mu sta + sum_list (map f p) \<le> mu st + f t" by simp
  moreover from Cons.IH [of sta] b
  have "mu stb + sum_list (map f ps) \<le> mu sta + sum_list (map f ts)" by simp
  ultimately show ?case unfolding r by simp
qed

lemma run_batch_bound:
  fixes mu :: "'db run_state \<Rightarrow> int"
  assumes "\<And>t st. mu (processTitle E t st) \<le> mu st + f t"
    and "\<And>st tr. mu (st\<lparr>trace := tr\<rparr>) = mu st"
  shows "mu (run_batch E b batch st) \<le> mu st + sum_list (map f (batch_tasks b batch))"
proof -
  obtain sta pending where a: "start_tasks E (batch_tasks b batch) st = (sta, pending)"
    by (cases "start_tasks E (batch_tasks b batch) st")
  have r: "run_batch E b batch st = settle E pending sta" by (simp add: run_batch_def a)
  from start_tasks_bound [of mu E f "batch_tasks b batch" st, OF assms] a
  have "mu sta + sum_list (map f pending) \<le> mu st + sum_list (map f (batch_tasks b batch))"
    by simp
  moreover have "mu (settle E pending sta) \<le> mu sta + sum_list (map f pending)"
    using assms(1) by (rule settle_bound)
  ultimately show ?thesis unfolding r by linarith
qed

lemma run_batches_bound:
  fixes mu :: "'db run_state \<Rightarrow> int"
  assumes "\<And>t st. mu (processTitle E t st) \<le> mu st + f t"
    and "\<And>st tr. mu (st\<lparr>trace := tr\<rparr>) = mu st"
  shows "mu (run_batches E n b batches st) \<le> mu st + sum_list (map f (all_tasks b batches))"
proof (induction batches arbitrary: b st)
  case Nil
  then show ?case by simp
next
  case (Cons batch rest)
  let ?sta = "run_batch E b batch st"
  let ?stb = "if int b < int n - 1
              then ?sta\<lparr>trace := trace ?sta @ [BatchSleep (GENERATION_DELAY * 2)]\<rparr> else ?sta"
  have unfold: "run_batches E n b (batch # rest) st = run_batches E n (Suc b) rest ?stb"
    by (simp add: Let_def)
  have "mu ?sta \<le> mu st + sum_list (map f (batch_tasks b batch))"
    using assms by (rule run_batch_bound)
  moreover have "mu ?stb = mu ?sta" by (simp add: assms(2))
  moreover have "mu (run_batches E n (Suc b) rest ?stb)
                   \<le> mu ?stb + sum_list (map f (all_tasks (Suc b) rest))"
    by (rule Cons.IH)
  ultimately show ?case unfolding unfold by simp
qed

text \<open>A property \<open>Q t\<close> of the state that holds once task \<open>t\<close> has settled, that no
  later task undoes, and that does not look at the trace, holds at the end of the run
  of every task of the run.\<close>

lemma settle_records:
  assumes "\<And>t st. Q t (processTitle E t st)"
    and "\<And>t u st. Q t st \<Longrightarrow> Q t (processTitle E u st)"
    and "\<forall>t \<in> S. t \<in> set pending \<or> Q t st"
  shows "\<forall>t \<in> S. Q t (settle E pending st)"
  using assms
proof (induction E pending st rule: settle.induct)
  case (1 E pending st)
  show ?case
  proof (cases "pending = []")
    case True
    with "1.prems"(3) show ?thesis by (simp add: settle_Nil)
  next
    case False
    define n where "n = settles_next E (map (\<lambda>(b, k, title). (b, k)) pending) mod length pending"
    note u = settle_unfold [OF False n_def]
    let ?rest = "take n pending @ drop (Suc n) pending"
    let ?sta = "processTitle E (pending ! n) st"
    have a: "\<forall>t \<in> S. t \<in> set ?rest \<or> Q t ?sta"
    proof
      fix t assume "t \<in> S"
      with "1.prems"(3) have "t \<in> set pending \<or> Q t st" by blast
      then show "t \<in> set ?rest \<or> Q t ?sta"
      proof
        assume "t \<in> set pending"
        then have "t = pending ! n \<or> t \<in> set ?rest"
          unfolding set_remove_nth [OF u(1)] by blast
        then show ?thesis using "1.prems"(1) [of "pending ! n" st] by blast
      next
        assume "Q t st"
        then have "Q t ?sta" by (rule "1.prems"(2))
        then show ?thesis ..
      qed
    qed
    from "1.IH" [OF False n_def "1.prems"(1,2) a] show ?thesis unfolding u(2) .
  qed
qed

lemma start_task_records:
  assumes "\<And>t st. Q t (processTitle E t st)"
    and "\<And>t u st. Q t st \<Longrightarrow> Q t (processTitle E u st)"
    and "\<And>t st tr. Q t (st\<lparr>trace := tr\<rparr>) = Q t st"
    and "\<forall>u \<in> S. Q u st"
  shows "(\<forall>u \<in> S. Q u (fst (start_task E t st)))
          \<and> (t \<in> set (snd (start_task E t st)) \<or> Q t (fst (start_task E t st)))"
proof (cases rule: start_task_cases [of t E st])
  case (settled b k title)
  let ?sta = "st\<lparr>trace := trace st @ [Started b k]\<rparr>"
  have "\<forall>u \<in> S. Q u ?sta" using assms(4) by (simp add: assms(3))
  then have "\<forall>u \<in> S. Q u (processTitle E t ?sta)" using assms(2) by blast
  moreover have "Q t (processTitle E t ?sta)" by (rule assms(1))
  ultimately show ?thesis unfolding settled(2) by simp
next
  case (pending tr)
  then show ?thesis using assms(4) by (simp add: assms(3))
qed

lemma start_tasks_records:
  assumes "\<And>t st. Q t (processTitle E t st)"
    and "\<And>t u st. Q t st \<Longrightarrow> Q t (processTitle E u st)"
    and "\<And>t st tr. Q t (st\<lparr>trace := tr\<rparr>) = Q t st"
    and "\<forall>u \<in> S. Q u st"
  shows "\<forall>u \<in> S \<union> set ts. u \<in> set (snd (start_tasks E ts st)) \<or> Q u (fst (start_tasks E ts st))"
  using assms(4)
proof (induction ts arbitrary: S st)
  case Nil
  then show ?case by simp
next
  case (Cons t ts)
  obtain sta p where a: "start_task E t st = (sta, p)" by (cases "start_task E t st")
  obtain stb ps where b: "start_tasks E ts sta = (stb, ps)" by (cases "start_tasks E ts sta")
  have r: "start_tasks E (t # ts) st = (stb, p @ ps)" by (simp add: a b)
  from start_task_records [of Q E S st t, OF assms(1-3) Cons.prems] a
  have one: "\<forall>u \<in> S. Q u sta" "t \<in> set p \<or> Q t sta" by simp_all
  from one(2) show ?case
  proof
    assume "t \<in> set p"
    moreover from Cons.IH [OF one(1)] b have "\<forall>u \<in> S \<union> set ts. u \<in> set ps \<or> Q u stb" by simp
    ultimately show ?thesis unfolding r by auto
  next
    assume "Q t sta"
    with one(1) have "\<forall>u \<in> insert t S. Q u sta" by simp
    from Cons.IH [OF this] b have "\<forall>u \<in> insert t S \<union> set ts. u \<in> set ps \<or> Q u stb" by simp
    then show ?thesis unfolding r by auto
  qed
qed

lemma run_batch_records:
  assumes "\<And>t st. Q t (processTitle E t st)"
    and "\<And>t u st. Q t st \<Longrightarrow> Q t (processTitle E u st)"
    and "\<And>t st tr. Q t (st\<lparr>trace := tr\<rparr>) = Q t st"
    and "\<forall>u \<in> S. Q u st"
  shows "\<forall>u \<in> S \<union> set (batch_tasks b batch). Q u (run_batch E b batch st)"
proof -
  obtain sta pending where a: "start_tasks E (batch_tasks b batch) st = (sta, pending)"
    by (cases "start_tasks E (batch_tasks b batch) st")
  have r: "run_batch E b batch st = settle E pending sta" by (simp add: run_batch_def a)
  from start_tasks_records [of Q E S st "batch_tasks b batch", OF assms] a
  have "\<forall>u \<in> S \<union> set (batch_tasks b batch). u \<in> set pending \<or> Q u sta" by simp
  with assms(1,2) show ?thesis unfolding r by (rule settle_records)
qed

lemma run_batches_records:
  assumes "\<And>t st. Q t (processTitle E t st)"
    and "\<And>t u st. Q t st \<Longrightarrow> Q t (processTitle E u st)"
    and "\<And>t st tr. Q t (st\<lparr>trace := tr\<rparr>) = Q t st"
    and "\<forall>u \<in> S. Q u st"
  shows "\<forall>u \<in> S \<union> set (all_tasks b batches). Q u (run_batches E n b batches st)"
  using assms(4)
proof (induction batches arbitrary: b S st)
  case Nil
  then show ?case by simp
next
  case (Cons batch rest)
  let ?sta = "run_batch E b batch st"
  let ?stb = "if int b < int n - 1
              then ?sta\<lparr>trace := trace ?sta @ [BatchSleep (GENERATION_DELAY * 2)]\<rparr> else ?sta"
  have unfold: "run_batches E n b (batch # rest) st = run_batches E n (Suc b) rest ?stb"
    by (simp add: Let_def)
  have "\<forall>u \<in> S \<union> set (batch_tasks b batch). Q u ?sta"
    using assms(1-3) Cons.prems by (rule run_batch_records)
  then have "\<forall>u \<in> S \<union> set (batch_tasks b batch). Q u ?stb" by (simp add: assms(3))
  from Cons.IH [OF this, of "Suc b"]
  have "\<forall>u \<in> S \<union> set (batch_tasks b batch) \<union> set (all_tasks (Suc b) rest).
          Q u (run_batches E n (Suc b) rest ?stb)" .
  then show ?case unfolding unfold by (simp add: Un_assoc)
qed

lemma all_tasks_titles: "map (\<lambda>t. snd (snd t)) (all_tasks b batches) = concat batches"
proof (induction batches arbitrary: b)
  case Nil
  then show ?case by simp
next
  case (Cons batch rest)
  have "map (\<lambda>t. snd (snd t)) (batch_tasks b batch) = map (\<lambda>k. batch ! k) [0..<length batch]"
    by (simp add: batch_tasks_nth)
  also have "\<dots> = batch" by (rule map_nth)
  finally show ?case using Cons.IH [of "Suc b"] by simp
qed

subsection \<open>The ledger\<close>

lemma sum_list_scaled_indicator:
  fixes a :: int
  shows "sum_list (map (\<lambda>x. if P x then a else 0) xs) = a * int (length (filter P xs))"
  by (induction xs) (simp_all add: algebra_simps)

lemma sum_list_constant:
  fixes a :: int
  shows "sum_list (map (\<lambda>x. a) xs) = a * int (length xs)"
  by (induction xs) (simp_all add: algebra_simps)

lemma processTitle_caught:
  assumes "buildQuestion E b k title = Inl e
           \<or> (\<exists>q. buildQuestion E b k title = Inr q \<and> persist E q (db st) = Inl e)"
  shows "generationStatus (processTitle E (b, k, title) st) =
           (generationStatus st)
             \<lparr>failed := failed (generationStatus st) + 1,
              errors := errors (generationStatus st)
                          @ [''Failed to generate \"'' @ title @ ''\": '' @ getErrorMessage e]\<rparr>"
    and "db (processTitle E (b, k, title) st) = db st"
    and "generatedQuestions (processTitle E (b, k, title) st) = generatedQuestions st"
  using assms by (auto simp: processTitle_def Let_def)

lemma processTitle_saved:
  assumes "buildQuestion E b k title = Inr q" "persist E q (db st) = Inr d"
  shows "generationStatus (processTitle E (b, k, title) st) =
           (generationStatus st)\<lparr>completed := completed (generationStatus st) + 1\<rparr>"
    and "db (processTitle E (b, k, title) st) = d"
    and "generatedQuestions (processTitle E (b, k, title) st) = generatedQuestions st @ [q]"
  using assms by (simp_all add: processTitle_def Let_def)

lemma processTitle_cases:
  obtains (caught) b k title e where "t = (b, k, title)"
      "buildQuestion E b k title = Inl e
       \<or> (\<exists>q. buildQuestion E b k title = Inr q \<and> persist E q (db st) = Inl e)"
    | (saved) b k title q d where "t = (b, k, title)"
      "buildQuestion E b k title = Inr q" "persist E q (db st) = Inr d"
proof (cases t)
  case (fields b k title)
  show thesis
  proof (cases "buildQuestion E b k title")
    case (Inl e)
    then have "buildQuestion E b k title = Inl e
       \<or> (\<exists>q. buildQuestion E b k title = Inr q \<and> persist E q (db st) = Inl e)" ..
    with fields show thesis by (rule caught)
  next
    case (Inr q)
    show thesis
    proof (cases "persist E q (db st)")
      case (Inl e)
      with Inr have "buildQuestion E b k title = Inl e
         \<or> (\<exists>q. buildQuestion E b k title = Inr q \<and> persist E q (db st) = Inl e)" by simp
      with fields show thesis by (rule caught)
    next
      case r: (Inr d)
      from fields Inr r show thesis by (rule saved)
    qed
  qed
qed

lemma processTitle_errors_mono:
  "set (errors (generationStatus st)) \<subseteq> set (errors (generationStatus (processTitle E t st)))"
proof (cases rule: processTitle_cases [of t E st])
  case (caught b k title e)
  show ?thesis unfolding caught(1) processTitle_caught(1) [OF caught(2)] by auto
next
  case (saved b k title q d)
  show ?thesis unfolding saved(1) processTitle_saved(1) [OF saved(2,3)] by simp
qed

lemma processTitle_failed:
  "failed (generationStatus st) \<le> failed (generationStatus (processTitle E t st))"
  "failed (generationStatus (processTitle E t st)) \<le> failed (generationStatus st) + 1"
  "build_fails E t \<Longrightarrow>
     failed (generationStatus (processTitle E t st)) = failed (generationStatus st) + 1"
  "\<forall>q d. \<not> isl (persist E q d) \<Longrightarrow> \<not> build_fails E t \<Longrightarrow>
     failed (generationStatus (processTitle E t st)) = failed (generationStatus st)"
  "\<forall>q d. isl (persist E q d) \<Longrightarrow>
     failed (generationStatus (processTitle E t st)) = failed (generationStatus st) + 1"
proof -
  show "failed (generationStatus st) \<le> failed (generationStatus (processTitle E t st))"
    by (cases t) (simp add: processTitle_def Let_def split: sum.splits)
  show "failed (generationStatus (processTitle E t st)) \<le> failed (generationStatus st) + 1"
    by (cases t) (simp add: processTitle_def Let_def split: sum.splits)
  show "build_fails E t \<Longrightarrow>
     failed (generationStatus (processTitle E t st)) = failed (generationStatus st) + 1"
    by (cases t) (auto simp: processTitle_def build_fails_def Let_def split: sum.splits)
  show "\<forall>q d. \<not> isl (persist E q d) \<Longrightarrow> \<not> build_fails E t \<Longrightarrow>
     failed (generationStatus (processTitle E t st)) = failed (generationStatus st)"
  proof -
    assume a: "\<forall>q d. \<not> isl (persist E q d)" and b: "\<not> build_fails E t"
    show ?thesis
    proof (cases rule: processTitle_cases [of t E st])
      case (caught b k title e)
      from caught b obtain q where "persist E q (db st) = Inl e"
        by (auto simp: build_fails_def)
      then have "isl (persist E q (db st))" by simp
      with a show ?thesis by blast
    next
      case (saved b k title q d)
      show ?thesis unfolding saved(1) processTitle_saved(1) [OF saved(2,3)] by simp
    qed
  qed
  show "\<forall>q d. isl (persist E q d) \<Longrightarrow>
     failed (generationStatus (processTitle E t st)) = failed (generationStatus st) + 1"
  proof -
    assume a: "\<forall>q d. isl (persist E q d)"
    show ?thesis
    proof (cases rule: processTitle_cases [of t E st])
      case (caught b k title e)
      show ?thesis unfolding caught(1) processTitle_caught(1) [OF caught(2)] by simp
    next
      case (saved b k title q d)
      with a have False by (metis sum.disc(2))
      then show ?thesis ..
    qed
  qed
qed

text \<open>Every task that fails leaves its entry in \<open>errors\<close>.\<close>

lemma run_batches_failure_recorded:
  fixes E :: "'db env"
  assumes "(b, k, title) \<in> set (all_tasks c batches)"
  shows "(\<forall>e. buildQuestion E b k title = Inl e \<longrightarrow>
            ''Failed to generate \"'' @ title @ ''\": '' @ getErrorMessage e
              \<in> set (errors (generationStatus (run_batches E n c batches st))))
       \<and> (\<forall>q. buildQuestion E b k title = Inr q \<longrightarrow> (\<forall>d. isl (persist E q d)) \<longrightarrow>
            (\<exists>d e. persist E q d = Inl e
               \<and> ''Failed to generate \"'' @ title @ ''\": '' @ getErrorMessage e
                   \<in> set (errors (generationStatus (run_batches E n c batches st)))))"
proof -
  define R :: "nat \<times> nat \<times> string \<Rightarrow> 'db run_state \<Rightarrow> bool" where
    "R = (\<lambda>t st. case t of (b, k, title) \<Rightarrow>
           (\<forall>e. buildQuestion E b k title = Inl e \<longrightarrow>
              ''Failed to generate \"'' @ title @ ''\": '' @ getErrorMessage e
                \<in> set (errors (generationStatus st)))
         \<and> (\<forall>q. buildQuestion E b k title = Inr q \<longrightarrow> (\<forall>d. isl (persist E q d)) \<longrightarrow>
              (\<exists>d e. persist E q d = Inl e
                 \<and> ''Failed to generate \"'' @ title @ ''\": '' @ getErrorMessage e
                     \<in> set (errors (generationStatus st)))))"
  have 1: "R t st" if "st = processTitle E t st0" for t st st0
  proof (cases rule: processTitle_cases [of t E st0])
    case (caught b k title e)
    note gs = processTitle_caught(1) [OF caught(2)]
    from caught(2) show ?thesis
    proof
      assume "buildQuestion E b k title = Inl e"
      then show ?thesis unfolding R_def that caught(1) by (simp add: gs)
    next
      assume "\<exists>q. buildQuestion E b k title = Inr q \<and> persist E q (db st0) = Inl e"
      then obtain q where "buildQuestion E b k title = Inr q" "persist E q (db st0) = Inl e"
        by blast
      then show ?thesis unfolding R_def that caught(1) by (auto simp: gs)
    qed
  next
    case (saved b k title q d)
    then have "\<not> (\<forall>d. isl (persist E q d))" by (metis sum.disc(2))
    with saved(2) show ?thesis unfolding R_def that saved(1) by auto
  qed
  have 2: "R t (processTitle E u st)" if "R t st" for t u st
    using that processTitle_errors_mono [of st E u] unfolding R_def
    by (cases t) (simp, blast)
  have 3: "R t (st\<lparr>trace := tr\<rparr>) = R t st" for t st tr
    unfolding R_def by simp
  have "\<forall>u \<in> {} \<union> set (all_tasks c batches). R u (run_batches E n c batches st)"
    by (rule run_batches_records) (simp_all add: 1 2 3)
  with assms have "R (b, k, title) (run_batches E n c batches st)" by blast
  then show ?thesis unfolding R_def by simp
qed

text \<open>Every entry of \<open>errors\<close> is the entry of a task that failed.\<close>

lemma run_batches_only_failures:
  fixes E :: "'db env"
  assumes "\<forall>x \<in> set (errors (generationStatus st)). \<exists>(b, k, title) \<in> S. \<exists>e.
             x = ''Failed to generate \"'' @ title @ ''\": '' @ getErrorMessage e
             \<and> (buildQuestion E b k title = Inl e
                \<or> (\<exists>q d. buildQuestion E b k title = Inr q \<and> persist E q d = Inl e))"
    and "set (all_tasks c batches) \<subseteq> S"
  shows "\<forall>x \<in> set (errors (generationStatus (run_batches E n c batches st))). \<exists>(b, k, title) \<in> S. \<exists>e.
             x = ''Failed to generate \"'' @ title @ ''\": '' @ getErrorMessage e
             \<and> (buildQuestion E b k title = Inl e
                \<or> (\<exists>q d. buildQuestion E b k title = Inr q \<and> persist E q d = Inl e))"
proof -
  define ok :: "string \<Rightarrow> bool" where
    "ok = (\<lambda>x. \<exists>(b, k, title) \<in> S. \<exists>e.
             x = ''Failed to generate \"'' @ title @ ''\": '' @ getErrorMessage e
             \<and> (buildQuestion E b k title = Inl e
                \<or> (\<exists>q d. buildQuestion E b k title = Inr q \<and> persist E q d = Inl e)))"
  define Inv :: "'db run_state \<Rightarrow> bool" where
    "Inv = (\<lambda>st. \<forall>x \<in> set (errors (generationStatus st)). ok x)"
  have 1: "Inv (processTitle E t st)" if "t \<in> S" "Inv st" for t st
  proof (cases rule: processTitle_cases [of t E st])
    case (caught b k title e)
    note gs = processTitle_caught(1) [OF caught(2)]
    from caught(2) have "buildQuestion E b k title = Inl e
        \<or> (\<exists>q d. buildQuestion E b k title = Inr q \<and> persist E q d = Inl e)"
      by blast
    with that(1) have "ok (''Failed to generate \"'' @ title @ ''\": '' @ getErrorMessage e)"
      unfolding caught(1) ok_def by blast
    with that(2) show ?thesis unfolding Inv_def caught(1) gs by simp
  next
    case (saved b k title q d)
    from that(2) show ?thesis unfolding Inv_def saved(1) processTitle_saved(1) [OF saved(2,3)]
      by simp
  qed
  have 2: "Inv (st\<lparr>trace := tr\<rparr>) = Inv st" for st tr
    unfolding Inv_def by simp
  have "Inv st" using assms(1) unfolding Inv_def ok_def .
  with 1 2 have "Inv (run_batches E n c batches st)"
    using assms(2) by (rule run_batches_invariant)
  then show ?thesis unfolding Inv_def ok_def .
qed

text \<open>The number of failures counted, against the tasks that fail before the write.\<close>

lemma run_batches_failed:
  fixes E :: "'db env"
  defines "fin \<equiv> \<lambda>n c batches st. failed (generationStatus (run_batches E n c batches st))"
  shows "failed (generationStatus st) + length (filter (build_fails E) (all_tasks c batches))
           \<le> fin n c batches st"
    and "\<forall>q d. \<not> isl (persist E q d) \<Longrightarrow>
           fin n c batches st
             = failed (generationStatus st) + length (filter (build_fails E) (all_tasks c batches))"
    and "\<forall>q d. isl (persist E q d) \<Longrightarrow>
           fin n c batches st = failed (generationStatus st) + length (all_tasks c batches)"
proof -
  let ?up = "\<lambda>st :: 'db run_state. int (failed (generationStatus st))"
  let ?down = "\<lambda>st :: 'db run_state. - int (failed (generationStatus st))"
  let ?tasks = "all_tasks c batches"
  have "?down (run_batches E n c batches st)
          \<le> ?down st + sum_list (map (\<lambda>t. if build_fails E t then - 1 else 0) ?tasks)"
  proof (rule run_batches_bound)
    fix t and st :: "'db run_state"
    show "?down (processTitle E t st) \<le> ?down st + (if build_fails E t then - 1 else 0)"
      using processTitle_failed(1) [of st E t] processTitle_failed(3) [of E t st] by simp
  qed simp
  then show low: "failed (generationStatus st) + length (filter (build_fails E) ?tasks)
           \<le> fin n c batches st"
    unfolding fin_def sum_list_scaled_indicator by simp
  show "fin n c batches st = failed (generationStatus st) + length (filter (build_fails E) ?tasks)"
    if a: "\<forall>q d. \<not> isl (persist E q d)"
  proof -
    have "?up (run_batches E n c batches st)
            \<le> ?up st + sum_list (map (\<lambda>t. if build_fails E t then 1 else 0) ?tasks)"
    proof (rule run_batches_bound)
      fix t and st :: "'db run_state"
      show "?up (processTitle E t st) \<le> ?up st + (if build_fails E t then 1 else 0)"
        using processTitle_failed(3) [of E t st] processTitle_failed(4) [OF a, of t st] by simp
    qed simp
    then have "fin n c batches st
        \<le> failed (generationStatus st) + length (filter (build_fails E) ?tasks)"
      unfolding fin_def sum_list_scaled_indicator by simp
    with low show ?thesis by simp
  qed
  show "fin n c batches st = failed (generationStatus st) + length ?tasks"
    if a: "\<forall>q d. isl (persist E q d)"
  proof -
    have "?down (run_batches E n c batches st) \<le> ?down st + sum_list (map (\<lambda>t. - 1) ?tasks)"
    proof (rule run_batches_bound)
      fix t and st :: "'db run_state"
      show "?down (processTitle E t st) \<le> ?down st + - 1"
        using processTitle_failed(5) [OF a, of t st] by simp
    qed simp
    then have 1: "failed (generationStatus st) + length ?tasks \<le> fin n c batches st"
      unfolding fin_def sum_list_constant by simp
    have "?up (run_batches E n c batches st) \<le> ?up st + sum_list (map (\<lambda>t. 1) ?tasks)"
    proof (rule run_batches_bound)
      fix t and st :: "'db run_state"
      show "?up (processTitle E t st) \<le> ?up st + 1"
        using processTitle_failed(2) [of E t st] by simp
    qed simp
    then have "fin n c batches st \<le> failed (generationStatus st) + length ?tasks"
      unfolding fin_def sum_list_constant by simp
    with 1 show ?thesis by simp
  qed
qed

lemma request_tasks: "map (\<lambda>t. snd (snd t)) (all_tasks 0 (make_batches 0 titles)) = titles"
  by (simp add: all_tasks_titles make_batches_concat)

text \<open>
  Claim C1. For a request whose titles are 1 to 20 strings of 1 to 200 characters,
  in every environment (whatever the generation service, the parser, the store and
  the order in which the tasks settle do), \<open>POST\<close> returns a response that carries the
  ledger, with status 200, 207 or 500, and no error leaves a task. In the ledger
  \<open>completed + failed = total = length titles\<close>, and there is one entry of \<open>errors\<close>
  for each failure counted. The tasks of the request are \<open>all_tasks 0 (make_batches 0 titles)\<close>,
  one for each title, in the order of the titles. Every failure is in the ledger:

    \<^item> a task whose title is refused, whose generation or parse fails, or whose
      question is incomplete (\<open>buildQuestion\<close> returns an error), has the entry
      with its title and the message of that error in \<open>errors\<close>;
    \<^item> a task whose question the store refuses, whatever the store holds, has an
      entry with its title and the message of the store's error in \<open>errors\<close>;
    \<^item> every entry of \<open>errors\<close> is the entry of a task of the request, with the
      message of the error of \<open>buildQuestion\<close> or of the store for that task;
    \<^item> \<open>failed\<close> is at least the number of tasks for which \<open>buildQuestion\<close> returns an
      error, it is that number if the store refuses nothing, and it is the number of
      titles if the store refuses everything;
    \<^item> at every state of the run, a task that fails before or in the write adds one
      to \<open>failed\<close> and its entry to the end of \<open>errors\<close>, and changes nothing else of
      the ledger, nor the store; a task that is written adds one to \<open>completed\<close> and
      changes nothing else of the ledger.
\<close>

theorem generate_ledger_total:
  fixes E :: "'db env"
  assumes "1 \<le> length titles" "length titles \<le> 20" "\<forall>t \<in> set titles. 1 \<le> length t \<and> length t \<le> 200"
  shows "\<exists>gs. resp_data (fst (POST E (Some (request_body titles)) db0)) = Some gs
          \<and> completed gs + failed gs = total gs \<and> total gs = length titles
          \<and> length (errors gs) = failed gs
          \<and> (\<forall>e \<in> set (errors gs). \<exists>t \<in> set titles. \<exists>m.
                e = ''Failed to generate \"'' @ t @ ''\": '' @ m)
          \<and> resp_status (fst (POST E (Some (request_body titles)) db0)) \<in> {200, 207, 500}
          \<and> map (\<lambda>t. snd (snd t)) (all_tasks 0 (make_batches 0 titles)) = titles
          \<and> (\<forall>(b, k, title) \<in> set (all_tasks 0 (make_batches 0 titles)).
                (\<forall>e. buildQuestion E b k title = Inl e \<longrightarrow>
                   ''Failed to generate \"'' @ title @ ''\": '' @ getErrorMessage e \<in> set (errors gs))
              \<and> (\<forall>q. buildQuestion E b k title = Inr q \<longrightarrow> (\<forall>d. isl (persist E q d)) \<longrightarrow>
                   (\<exists>d e. persist E q d = Inl e
                      \<and> ''Failed to generate \"'' @ title @ ''\": '' @ getErrorMessage e \<in> set (errors gs))))
          \<and> (\<forall>x \<in> set (errors gs). \<exists>(b, k, title) \<in> set (all_tasks 0 (make_batches 0 titles)). \<exists>e.
                x = ''Failed to generate \"'' @ title @ ''\": '' @ getErrorMessage e
                \<and> (buildQuestion E b k title = Inl e
                   \<or> (\<exists>q d. buildQuestion E b k title = Inr q \<and> persist E q d = Inl e)))
          \<and> length (filter (build_fails E) (all_tasks 0 (make_batches 0 titles))) \<le> failed gs
          \<and> ((\<forall>q d. \<not> isl (persist E q d)) \<longrightarrow>
                failed gs = length (filter (build_fails E) (all_tasks 0 (make_batches 0 titles))))
          \<and> ((\<forall>q d. isl (persist E q d)) \<longrightarrow> failed gs = length titles \<and> completed gs = 0)
          \<and> (\<forall>st b k title e.
                buildQuestion E b k title = Inl e
                \<or> (\<exists>q. buildQuestion E b k title = Inr q \<and> persist E q (db st) = Inl e) \<longrightarrow>
                generationStatus (processTitle E (b, k, title) st) =
                  (generationStatus st)
                    \<lparr>failed := failed (generationStatus st) + 1,
                     errors := errors (generationStatus st)
                                 @ [''Failed to generate \"'' @ title @ ''\": '' @ getErrorMessage e]\<rparr>
                \<and> db (processTitle E (b, k, title) st) = db st)
          \<and> (\<forall>st b k title q d.
                buildQuestion E b k title = Inr q \<and> persist E q (db st) = Inr d \<longrightarrow>
                generationStatus (processTitle E (b, k, title) st) =
                  (generationStatus st)\<lparr>completed := completed (generationStatus st) + 1\<rparr>
                \<and> db (processTitle E (b, k, title) st) = d)"
proof -
  let ?init = "\<lparr>generationStatus = \<lparr>total = length titles, completed = 0, failed = 0, errors = []\<rparr>,
               generatedQuestions = [], db = db0, trace = []\<rparr>"
  let ?bs = "make_batches 0 titles"
  let ?tasks = "all_tasks 0 ?bs"
  let ?fin = "run_batches E (length ?bs) 0 ?bs ?init"
  define gs where "gs = generationStatus ?fin"
  note v = validate_request_body [OF assms, of "zod_message E"]
  have r: "resp_data (fst (POST E (Some (request_body titles)) db0)) = Some gs"
    unfolding gs_def by (rule POST_accepted(1) [OF v assms(1,2)])
  from POST_ledger [OF v assms(1,2), of db0] r have led:
    "completed gs + failed gs = total gs" "total gs = length titles"
    "length (errors gs) = failed gs"
    "resp_status (fst (POST E (Some (request_body titles)) db0)) \<in> {200, 207, 500}"
    by auto
  have tasks: "map (\<lambda>t. snd (snd t)) ?tasks = titles" by (rule request_tasks)
  then have len: "length ?tasks = length titles" by (metis length_map)
  have rec: "\<forall>(b, k, title) \<in> set ?tasks.
                (\<forall>e. buildQuestion E b k title = Inl e \<longrightarrow>
                   ''Failed to generate \"'' @ title @ ''\": '' @ getErrorMessage e \<in> set (errors gs))
              \<and> (\<forall>q. buildQuestion E b k title = Inr q \<longrightarrow> (\<forall>d. isl (persist E q d)) \<longrightarrow>
                   (\<exists>d e. persist E q d = Inl e
                      \<and> ''Failed to generate \"'' @ title @ ''\": '' @ getErrorMessage e \<in> set (errors gs)))"
  proof (rule ballI)
    fix t assume t: "t \<in> set ?tasks"
    obtain b k title where f: "t = (b, k, title)" by (cases t)
    from t have "(b, k, title) \<in> set ?tasks" unfolding f .
    from run_batches_failure_recorded [OF this, of E "length ?bs" ?init]
    show "case t of (b, k, title) \<Rightarrow>
                (\<forall>e. buildQuestion E b k title = Inl e \<longrightarrow>
                   ''Failed to generate \"'' @ title @ ''\": '' @ getErrorMessage e \<in> set (errors gs))
              \<and> (\<forall>q. buildQuestion E b k title = Inr q \<longrightarrow> (\<forall>d. isl (persist E q d)) \<longrightarrow>
                   (\<exists>d e. persist E q d = Inl e
                      \<and> ''Failed to generate \"'' @ title @ ''\": '' @ getErrorMessage e \<in> set (errors gs)))"
      unfolding f prod.case gs_def .
  qed
  have only: "\<forall>x \<in> set (errors gs). \<exists>(b, k, title) \<in> set ?tasks. \<exists>e.
                x = ''Failed to generate \"'' @ title @ ''\": '' @ getErrorMessage e
                \<and> (buildQuestion E b k title = Inl e
                   \<or> (\<exists>q d. buildQuestion E b k title = Inr q \<and> persist E q d = Inl e))"
    unfolding gs_def by (rule run_batches_only_failures) simp_all
  have shape: "\<forall>e \<in> set (errors gs). \<exists>t \<in> set titles. \<exists>m.
                e = ''Failed to generate \"'' @ t @ ''\": '' @ m"
  proof
    fix x assume "x \<in> set (errors gs)"
    with only obtain b k title e where t: "(b, k, title) \<in> set ?tasks"
      and x: "x = ''Failed to generate \"'' @ title @ ''\": '' @ getErrorMessage e"
      by blast
    from t have "snd (snd (b, k, title)) \<in> set (map (\<lambda>t. snd (snd t)) ?tasks)"
      unfolding set_map by (rule imageI)
    then have "title \<in> set titles" unfolding tasks by simp
    with x show "\<exists>t \<in> set titles. \<exists>m. x = ''Failed to generate \"'' @ t @ ''\": '' @ m"
      by blast
  qed
  note f = run_batches_failed [where E = E and st = ?init and c = 0 and batches = ?bs
      and n = "length ?bs"]
  have low: "length (filter (build_fails E) ?tasks) \<le> failed gs"
    using f(1) unfolding gs_def by simp
  have none: "(\<forall>q d. \<not> isl (persist E q d)) \<longrightarrow> failed gs = length (filter (build_fails E) ?tasks)"
    using f(2) unfolding gs_def by simp
  have every: "(\<forall>q d. isl (persist E q d)) \<longrightarrow> failed gs = length titles \<and> completed gs = 0"
  proof
    assume "\<forall>q d. isl (persist E q d)"
    from f(3) [OF this] have "failed gs = length titles" unfolding gs_def len by simp
    with led(1,2) show "failed gs = length titles \<and> completed gs = 0" by simp
  qed
  have caught: "\<forall>st b k title e.
                buildQuestion E b k title = Inl e
                \<or> (\<exists>q. buildQuestion E b k title = Inr q \<and> persist E q (db st) = Inl e) \<longrightarrow>
                generationStatus (processTitle E (b, k, title) st) =
                  (generationStatus st)
                    \<lparr>failed := failed (generationStatus st) + 1,
                     errors := errors (generationStatus st)
                                 @ [''Failed to generate \"'' @ title @ ''\": '' @ getErrorMessage e]\<rparr>
                \<and> db (processTitle E (b, k, title) st) = db st"
    using processTitle_caught(1,2) [of E] by blast
  have saved: "\<forall>st b k title q d.
                buildQuestion E b k title = Inr q \<and> persist E q (db st) = Inr d \<longrightarrow>
                generationStatus (processTitle E (b, k, title) st) =
                  (generationStatus st)\<lparr>completed := completed (generationStatus st) + 1\<rparr>
                \<and> db (processTitle E (b, k, title) st) = d"
    using processTitle_saved(1,2) [of E] by blast
  show ?thesis
    apply (rule exI [of _ gs])
    apply (intro conjI)
    apply (rule r)
    apply (rule led(1))
    apply (rule led(2))
    apply (rule led(3))
    apply (rule shape)
    apply (rule led(4))
    apply (rule tasks)
    apply (rule rec)
    apply (rule only)
    apply (rule low)
    apply (rule none)
    apply (rule every)
    apply (rule caught)
    apply (rule saved)
    done
qed

lemma sample_build_ok:
  "buildQuestion sample_env b k ''Two Sum'' =
     Inr (sample_metadata(''id'' \<mapsto> JStr (''q'' @ toString b @ toString k),
                          ''pseudocode'' := None,
                          ''title'' \<mapsto> JStr ''Two Sum'',
                          ''created_at'' \<mapsto> JStr ''2024-01-01T00:00:00.000Z''))"
proof -
  have v: "validateAndSanitizeTitle ''Two Sum'' = Inr ''Two Sum''"
    by (simp add: validateAndSanitizeTitle_def trim_def is_space_def)
  have m: "match_braces (trim sample_text) = Some sample_text"
    by (simp add: match_braces_def trim_def is_space_def sample_text_def)
  have p: "parseResponse (JSON_parse sample_env) sample_text = Inr (sample_metadata(''pseudocode'' := None))"
    unfolding parseResponse_braces [OF m]
    by (simp add: sample_env_def) (auto simp: sample_metadata_def)
  have g: "generateQuestionMetadata (JSON_parse sample_env) (generate sample_env b k ''Two Sum'') ''Two Sum''
      = Inr (sample_metadata(''pseudocode'' := None))"
    using p by (simp add: generateQuestionMetadata_def sample_env_def trim_def is_space_def)
  show ?thesis
    unfolding buildQuestion_def v sum.case g
    by (auto simp: sample_env_def sample_metadata_def Let_def map_add_def)
qed

lemma build_blank:
  "buildQuestion E b k ''   '' = Inl (ValidationError ''Title cannot be empty'')"
  by (simp add: buildQuestion_def validateAndSanitizeTitle_def trim_def is_space_def)

lemma buildQuestion_persist:
  "buildQuestion (E\<lparr>persist := p\<rparr>) b k title = buildQuestion E b k title"
  by (simp add: buildQuestion_def cong: sum.case_cong)

theorem generate_ledger_total_witness:
  "(1::nat) \<le> length [''Two Sum'', ''   ''] \<and> length [''Two Sum'', ''   ''] \<le> (20::nat)
   \<and> resp_data (fst (POST sample_env (Some (request_body [''Two Sum'', ''   ''])) [])) =
       Some \<lparr>total = 2, completed = 1, failed = 1,
             errors = [''Failed to generate \"   \": Title cannot be empty'']\<rparr>
   \<and> resp_status (fst (POST sample_env (Some (request_body [''Two Sum'', ''   ''])) [])) = 207
   \<and> all_tasks 0 (make_batches 0 [''Two Sum'', ''   '']) = [(0, 0, ''Two Sum''), (0, 1, ''   '')]
   \<and> buildQuestion sample_env 0 1 ''   '' = Inl (ValidationError ''Title cannot be empty'')
   \<and> filter (build_fails sample_env) (all_tasks 0 (make_batches 0 [''Two Sum'', ''   '']))
       = [(0, 1, ''   '')]
   \<and> resp_data (fst (POST (sample_env\<lparr>persist := \<lambda>q d. Inl (DatabaseError ''Failed to save question: disk full'')\<rparr>)
                       (Some (request_body [''Two Sum''])) [])) =
       Some \<lparr>total = 1, completed = 0, failed = 1,
             errors = [''Failed to generate \"Two Sum\": Failed to save question: disk full'']\<rparr>
   \<and> resp_status (fst (POST (sample_env\<lparr>persist := \<lambda>q d. Inl (DatabaseError ''Failed to save question: disk full'')\<rparr>)
                       (Some (request_body [''Two Sum''])) [])) = 500"
proof -
  let ?full = "sample_env\<lparr>persist := \<lambda>q d. Inl (DatabaseError ''Failed to save question: disk full'')\<rparr>"
  have v: "validateGenerateRequest (zod_message sample_env) (request_body [''Two Sum'', ''   ''])
      = Inr [''Two Sum'', ''   '']"
    by (rule validate_request_body) simp_all
  have v1: "validateGenerateRequest (zod_message ?full) (request_body [''Two Sum'']) = Inr [''Two Sum'']"
    by (rule validate_request_body) simp_all
  have mb: "make_batches 0 [''Two Sum'', ''   ''] = [[''Two Sum'', ''   '']]"
    "make_batches 0 [''Two Sum''] = [[''Two Sum'']]"
    by (simp_all add: make_batches_step make_batches_done slice_def MAX_CONCURRENT_GENERATIONS_def)
  have s: "settles_next sample_env = (\<lambda>pending. 0)"
    "persist sample_env = (\<lambda>question tbl. Inr (tbl @ [question]))"
    by (simp_all add: sample_env_def)
  have ok: "validateAndSanitizeTitle ''Two Sum'' = Inr ''Two Sum''"
    "validateAndSanitizeTitle ''   '' = Inl (ValidationError ''Title cannot be empty'')"
    by (simp_all add: validateAndSanitizeTitle_def trim_def is_space_def)
  have tasks: "all_tasks 0 (make_batches 0 [''Two Sum'', ''   '']) = [(0, 0, ''Two Sum''), (0, 1, ''   '')]"
    unfolding mb by (simp add: batch_tasks_def enumerate_eq_zip)
  have fails: "filter (build_fails sample_env) (all_tasks 0 (make_batches 0 [''Two Sum'', ''   '']))
       = [(0, 1, ''   '')]"
    unfolding tasks by (simp add: build_fails_def sample_build_ok build_blank)
  have p: "1 \<le> length [''Two Sum'', ''   '']" "length [''Two Sum'', ''   ''] \<le> 20"
    "\<forall>t \<in> set [''Two Sum'', ''   '']. 1 \<le> length t \<and> length t \<le> 200"
    "1 \<le> length [''Two Sum'']" "length [''Two Sum''] \<le> 20"
    "\<forall>t \<in> set [''Two Sum'']. 1 \<le> length t \<and> length t \<le> 200"
    by simp_all
  from generate_ledger_total [OF p(1-3), where E = sample_env and ?db0.0 = "[]"]
  have "\<exists>gs. resp_data (fst (POST sample_env (Some (request_body [''Two Sum'', ''   ''])) [])) = Some gs
          \<and> length (errors gs) = failed gs"
    by blast
  moreover from generate_ledger_total [OF p(4-6), where E = ?full and ?db0.0 = "[]"]
  have "\<exists>gs. resp_data (fst (POST ?full (Some (request_body [''Two Sum''])) [])) = Some gs
          \<and> length (errors gs) = failed gs"
    by blast
  moreover have "resp_data (fst (POST sample_env (Some (request_body [''Two Sum'', ''   ''])) [])) =
       Some \<lparr>total = 2, completed = 1, failed = 1,
             errors = [''Failed to generate \"   \": Title cannot be empty'']\<rparr>
   \<and> resp_status (fst (POST sample_env (Some (request_body [''Two Sum'', ''   ''])) [])) = 207"
    unfolding POST_def option.case v sum.case mb
    by (simp add: Let_def run_batch_def batch_tasks_def enumerate_eq_zip start_task_def ok
        settle_Cons settle_Nil s processTitle_def sample_build_ok build_blank)
  moreover have "resp_data (fst (POST ?full (Some (request_body [''Two Sum''])) [])) =
       Some \<lparr>total = 1, completed = 0, failed = 1,
             errors = [''Failed to generate \"Two Sum\": Failed to save question: disk full'']\<rparr>
   \<and> resp_status (fst (POST ?full (Some (request_body [''Two Sum''])) [])) = 500"
    unfolding POST_def option.case v1 sum.case mb
    by (simp add: Let_def run_batch_def batch_tasks_def enumerate_eq_zip start_task_def ok
        settle_Cons settle_Nil s processTitle_def buildQuestion_persist sample_build_ok)
  moreover note tasks fails build_blank [of sample_env 0 1]
  ultimately show ?thesis
    by simp
qed

text \<open>
  Claim C2 as stated fails: the empty title is rejected by the request schema
  (\<^verbatim>\<open>z.string().min(1)\<close>), so the request is answered with status 400, no ledger is
  returned and nothing is written.
\<close>

theorem generate_empty_title_counterexample:
  "resp_data (fst (POST sample_env
       (Some (request_body [''Check if a number is even or odd'', ''''])) [])) = None
   \<and> resp_status (fst (POST sample_env
       (Some (request_body [''Check if a number is even or odd'', ''''])) [])) = 400
   \<and> fst (snd (POST sample_env
       (Some (request_body [''Check if a number is even or odd'', ''''])) [])) = []"
  by (simp add: POST_def validateGenerateRequest_def GenerateRequestSchema_parse_def request_body_def)

text \<open>
  Claim C2, amended. On the titles \<^verbatim>\<open>["Check if a number is even or odd", ""]\<close>, in
  every environment and on every store, \<open>POST\<close> answers with status 400, the error
  of the request validation and no ledger; the store is unchanged and no task is
  started.
\<close>

theorem generate_empty_title_rejected:
  "POST E (Some (request_body [''Check if a number is even or odd'', ''''])) db0 =
     (\<lparr>resp_status = 400, resp_success = False,
       resp_error = Some (''Invalid generate request: ''
          @ zod_message E (request_body [''Check if a number is even or odd'', ''''])),
       resp_data = None, resp_message = None\<rparr>, db0, [])"
  by (simp add: POST_def validateGenerateRequest_def GenerateRequestSchema_parse_def request_body_def)

theorem generate_empty_title_rejected_witness:
  "POST sample_env (Some (request_body [''Check if a number is even or odd'', ''''])) [] =
     (\<lparr>resp_status = 400, resp_success = False,
       resp_error = Some ''Invalid generate request: String must contain at least 1 character(s)'',
       resp_data = None, resp_message = None\<rparr>, [], [])"
  using generate_empty_title_rejected [of sample_env "[]"]
  by (simp add: sample_env_def)

lemma validateAndSanitizeTitle_Inr:
  "validateAndSanitizeTitle title = Inr s \<Longrightarrow> s = trim title \<and> 1 \<le> length s \<and> length s \<le> 200"
proof -
  assume a: "validateAndSanitizeTitle title = Inr s"
  then have "s = trim title" "trim title \<noteq> []" "\<not> 200 < length (trim title)"
    by (auto simp: validateAndSanitizeTitle_def Let_def split: if_splits)
  then show ?thesis by (simp add: Suc_le_eq)
qed

lemma parseResponse_Inr:
  assumes "parseResponse jp raw = Inr r"
  shows "truthy (r ''title'') \<and> truthy (r ''difficulty'') \<and> truthy (r ''description'')
     \<and> isArray (r ''topics'') \<and> isArray (r ''step_by_step_explanation'')
     \<and> (r ''pseudocode'' = None \<or> isArray (r ''pseudocode''))"
proof (cases "match_braces (trim raw)")
  case None
  with assms show ?thesis by (simp add: parseResponse_no_braces)
next
  case (Some m)
  with assms show ?thesis
    by (auto simp: parseResponse_braces split: option.splits if_splits)
qed

lemma generateQuestionMetadata_Inr:
  assumes "generateQuestionMetadata jp generated title = Inr r"
  shows "truthy (r ''title'') \<and> truthy (r ''difficulty'') \<and> truthy (r ''description'')
     \<and> isArray (r ''topics'') \<and> isArray (r ''step_by_step_explanation'')
     \<and> (r ''pseudocode'' = None \<or> isArray (r ''pseudocode''))"
proof -
  from assms obtain raw where "parseResponse jp raw = Inr r"
    by (auto simp: generateQuestionMetadata_def split: if_splits sum.splits)
  then show ?thesis by (rule parseResponse_Inr)
qed

lemma truthy_Some: "truthy v \<Longrightarrow> \<exists>x. v = Some x"
  by (cases v) auto

lemma isArray_Some: "isArray v \<Longrightarrow> \<exists>x. v = Some x"
  by (cases v) auto

lemma buildQuestion_Inr:
  assumes "buildQuestion E b k title = Inr q"
  shows "q ''title'' = Some (JStr (trim title)) \<and> 1 \<le> length (trim title) \<and> length (trim title) \<le> 200
     \<and> truthy (q ''difficulty'') \<and> truthy (q ''description'') \<and> truthy (q ''solution_python'')
     \<and> isArray (q ''topics'') \<and> isArray (q ''step_by_step_explanation'')
     \<and> (q ''pseudocode'' = None \<or> isArray (q ''pseudocode''))
     \<and> q ''created_at'' = Some (JStr (toISOString E b k))"
proof -
  from assms obtain s where s: "validateAndSanitizeTitle title = Inr s"
    by (auto simp: buildQuestion_def split: sum.splits)
  from assms s obtain md where md: "generateQuestionMetadata (JSON_parse E) (generate E b k s) s = Inr md"
    by (auto simp: buildQuestion_def split: sum.splits)
  let ?q = "([''id'' \<mapsto> JStr (generateId E b k)] ++ md)
              (''title'' \<mapsto> JStr s, ''created_at'' \<mapsto> JStr (toISOString E b k))"
  from assms s md have q: "q = ?q" and passed: "truthy (?q ''description'')" "truthy (?q ''solution_python'')"
    by (auto simp: buildQuestion_def Let_def split: if_splits)
  from generateQuestionMetadata_Inr [OF md]
  have m: "truthy (md ''difficulty'')" "isArray (md ''topics'')" "isArray (md ''step_by_step_explanation'')"
    "md ''pseudocode'' = None \<or> isArray (md ''pseudocode'')"
    by blast+
  have "truthy (?q ''difficulty'')" using m(1) truthy_Some [OF m(1)] by (auto simp: map_add_def)
  moreover have "isArray (?q ''topics'')" using m(2) isArray_Some [OF m(2)] by (auto simp: map_add_def)
  moreover have "isArray (?q ''step_by_step_explanation'')"
    using m(3) isArray_Some [OF m(3)] by (auto simp: map_add_def)
  moreover have "?q ''pseudocode'' = None \<or> isArray (?q ''pseudocode'')"
    using m(4) by (auto simp: map_add_def split: option.splits)
  moreover have "?q ''title'' = Some (JStr s)" "?q ''created_at'' = Some (JStr (toISOString E b k))"
    by simp_all
  ultimately show ?thesis
    using validateAndSanitizeTitle_Inr [OF s] passed unfolding q by blast
qed

lemma processTitle_db:
  "db (processTitle E (b, k, title) st) = db st
   \<or> (\<exists>q. buildQuestion E b k title = Inr q
          \<and> persist E q (db st) = Inr (db (processTitle E (b, k, title) st)))"
  by (simp add: processTitle_def Let_def split: sum.splits)

lemma saveQuestion_difficulty:
  "saveQuestion J now a tbl = Inr tbl' \<Longrightarrow> q_difficulty a \<in> {''Easy'', ''Medium'', ''Hard''}"
  by (auto simp: saveQuestion_def statements_insert_def split: if_splits)

text \<open>
  Claim C4 as stated fails. The generation service answers with an object that has
  no \<^verbatim>\<open>topics\<close> and no \<^verbatim>\<open>step_by_step_explanation\<close>, a description of 5 characters and
  empty example texts. The parser fills in empty lists, the check before the write
  looks at title, description and solution only, and the question is written: the
  table then returns it to a reader.
\<close>

theorem generate_writes_invalid_counterexample:
  "(case buildQuestion lax_env 0 0 ''Two Sum'' of
      Inl e \<Rightarrow> False
    | Inr q \<Rightarrow> q ''topics'' = Some (JArr []) \<and> q ''step_by_step_explanation'' = Some (JArr [])
        \<and> q ''description'' = Some (JStr ''short'')
        \<and> q ''example'' = Some (JObj [(''input'', JStr []), (''output'', JStr []),
                                         (''explanation'', JStr [])]))
   \<and> (case getQuestion plain_JSON ''q00''
              (fst (snd (POST lax_env (Some (request_body [''Two Sum''])) []))) of
        Inr (Some a) \<Rightarrow> q_title a = ''Two Sum'' \<and> q_topics a = [] \<and> q_step_by_step_explanation a = []
          \<and> q_description a = ''short'' \<and> ex_input (q_example a) = []
      | _ \<Rightarrow> False)"
proof -
  have v: "validateAndSanitizeTitle ''Two Sum'' = Inr ''Two Sum''"
    by (simp add: validateAndSanitizeTitle_def trim_def is_space_def)
  have m: "match_braces (trim lax_text) = Some lax_text"
    by (simp add: match_braces_def trim_def is_space_def lax_text_def)
  have p: "parseResponse (JSON_parse lax_env) lax_text =
      Inr (lax_metadata(''topics'' \<mapsto> JArr [], ''step_by_step_explanation'' \<mapsto> JArr []))"
    unfolding parseResponse_braces [OF m]
    by (simp add: lax_env_def) (auto simp: lax_metadata_def)
  have g: "generateQuestionMetadata (JSON_parse lax_env) (generate lax_env 0 0 ''Two Sum'') ''Two Sum''
      = Inr (lax_metadata(''topics'' \<mapsto> JArr [], ''step_by_step_explanation'' \<mapsto> JArr []))"
    using p by (simp add: generateQuestionMetadata_def lax_env_def trim_def is_space_def)
  have b: "buildQuestion lax_env 0 0 ''Two Sum'' =
     Inr (lax_metadata(''id'' \<mapsto> JStr ''q00'', ''topics'' \<mapsto> JArr [],
            ''step_by_step_explanation'' \<mapsto> JArr [], ''title'' \<mapsto> JStr ''Two Sum'',
            ''created_at'' \<mapsto> JStr ''2024-01-01T00:00:00.000Z''))"
    unfolding buildQuestion_def v sum.case g
    by (auto simp: lax_env_def lax_metadata_def Let_def map_add_def toString_def digit_def)
  have vr: "validateGenerateRequest (zod_message lax_env) (request_body [''Two Sum'']) = Inr [''Two Sum'']"
    by (rule validate_request_body) simp_all
  have mb: "make_batches 0 [''Two Sum''] = [[''Two Sum'']]"
    by (simp add: make_batches_step make_batches_done slice_def MAX_CONCURRENT_GENERATIONS_def)
  have s: "settles_next lax_env = (\<lambda>pending. 0)"
    "persist lax_env = (\<lambda>question tbl.
                   case as_Question question of
                     None \<Rightarrow> Inl (Error ''TypeError'')
                   | Some a \<Rightarrow> saveQuestion plain_JSON ''2024-01-01T00:00:01.000Z'' a tbl)"
    by (simp_all add: lax_env_def)
  have aq: "as_Question (lax_metadata(''id'' \<mapsto> JStr ''q00'', ''topics'' \<mapsto> JArr [],
            ''step_by_step_explanation'' \<mapsto> JArr [], ''title'' \<mapsto> JStr ''Two Sum'',
            ''created_at'' \<mapsto> JStr ''2024-01-01T00:00:00.000Z'')) =
      Some \<lparr>q_id = ''q00'', q_title = ''Two Sum'', q_difficulty = ''Easy'', q_topics = [],
            q_description = ''short'',
            q_example = \<lparr>ex_input = [], ex_output = [], ex_explanation = []\<rparr>,
            q_solution_python = ''pass'', q_step_by_step_explanation = [], q_pseudocode = None,
            q_created_at = ''2024-01-01T00:00:00.000Z'', q_updated_at = None\<rparr>"
    by (simp add: as_Question_def lax_metadata_def)
  have post: "fst (snd (POST lax_env (Some (request_body [''Two Sum''])) [])) =
      [\<lparr>row_id = ''q00'', row_title = ''Two Sum'', row_difficulty = ''Easy'', row_topics = ''[]'',
        row_description = ''short'',
        row_example = ''{\"input\":\"\",\"output\":\"\",\"explanation\":\"\"}'',
        row_solution_python = ''pass'', row_step_by_step_explanation = ''[]'',
        row_pseudocode = None, row_created_at = ''2024-01-01T00:00:00.000Z'',
        row_updated_at = Some ''2024-01-01T00:00:01.000Z''\<rparr>]"
    unfolding POST_def option.case vr sum.case mb
    by (simp add: Let_def run_batch_def batch_tasks_def enumerate_eq_zip start_task_def v
        settle_Cons settle_Nil s processTitle_def
        b aq saveQuestion_def statements_insert_def plain_JSON_def json_quote_def)
  show ?thesis
    unfolding post b
    by (simp add: getQuestion_def statements_selectById_def convertDbToQuestion_def plain_JSON_def
          lax_metadata_def)
qed

text \<open>
  Claim C4, amended. What the pipeline guarantees of every question object it hands
  to \<^verbatim>\<open>saveQuestion\<close>: the title is the trimmed title of the request, of 1 to 200
  characters; difficulty, description and solution are truthy; \<^verbatim>\<open>topics\<close> and
  \<^verbatim>\<open>step_by_step_explanation\<close> are lists, possibly empty; \<^verbatim>\<open>pseudocode\<close> is a list or
  absent; \<^verbatim>\<open>created_at\<close> is the time stamp the task read. A task changes the store only
  by a successful write of such an object. The table itself accepts a question only
  if its difficulty is Easy, Medium or Hard. The number of topics, the length of the
  description, the example texts and the number of steps are not checked.
\<close>

theorem generate_hands_over_checked:
  "(buildQuestion E b k title = Inr q \<longrightarrow>
      q ''title'' = Some (JStr (trim title)) \<and> 1 \<le> length (trim title) \<and> length (trim title) \<le> 200
      \<and> truthy (q ''difficulty'') \<and> truthy (q ''description'') \<and> truthy (q ''solution_python'')
      \<and> isArray (q ''topics'') \<and> isArray (q ''step_by_step_explanation'')
      \<and> (q ''pseudocode'' = None \<or> isArray (q ''pseudocode''))
      \<and> q ''created_at'' = Some (JStr (toISOString E b k)))
   \<and> (db (processTitle E (b, k, title) st) = db st
       \<or> (\<exists>q'. buildQuestion E b k title = Inr q'
             \<and> persist E q' (db st) = Inr (db (processTitle E (b, k, title) st))))
   \<and> (saveQuestion J now a tbl = Inr tbl' \<longrightarrow> q_difficulty a \<in> {''Easy'', ''Medium'', ''Hard''})"
  using buildQuestion_Inr [of E b k title q] processTitle_db [of E b k title st]
    saveQuestion_difficulty [of J now a tbl tbl']
  by blast

theorem generate_hands_over_checked_witness:
  "(\<exists>q. buildQuestion sample_env 0 0 ''Two Sum'' = Inr q
       \<and> q ''title'' = Some (JStr ''Two Sum'') \<and> truthy (q ''difficulty'')
       \<and> truthy (q ''description'') \<and> truthy (q ''solution_python'')
       \<and> isArray (q ''topics'') \<and> isArray (q ''step_by_step_explanation'')
       \<and> q ''pseudocode'' = None)
   \<and> (\<exists>tbl'. saveQuestion plain_JSON ''2024-01-02T00:00:00.000Z'' sample_question [] = Inr tbl')
   \<and> q_difficulty sample_question \<in> {''Easy'', ''Medium'', ''Hard''}"
proof -
  let ?q = "sample_metadata(''id'' \<mapsto> JStr (''q'' @ toString 0 @ toString 0),
                          ''pseudocode'' := None,
                          ''title'' \<mapsto> JStr ''Two Sum'',
                          ''created_at'' \<mapsto> JStr ''2024-01-01T00:00:00.000Z'')"
  let ?r = "\<lparr>row_id = ''q1'',
             row_title = ''Check if a number is even or odd'',
             row_difficulty = ''Easy'',
             row_topics = stringify_list plain_JSON [''math'', ''modulo''],
             row_description = ''Decide whether an integer is even or odd.'',
             row_example = stringify_example plain_JSON
                \<lparr>ex_input = ''4'', ex_output = ''even'', ex_explanation = ''4 % 2 == 0''\<rparr>,
             row_solution_python = ''def f(n): return n % 2 == 0'',
             row_step_by_step_explanation =
                stringify_list plain_JSON [''take n modulo 2'', ''compare with 0''],
             row_pseudocode = Some (stringify_list plain_JSON [''r <- n mod 2'', ''return r = 0'']),
             row_created_at = ''2024-01-01T00:00:00.000Z'',
             row_updated_at = Some ''2024-01-02T00:00:00.000Z''\<rparr>"
  have b: "buildQuestion sample_env 0 0 ''Two Sum'' = Inr ?q" by (rule sample_build_ok)
  have t: "trim ''Two Sum'' = ''Two Sum''" by (simp add: trim_def is_space_def)
  have s: "saveQuestion plain_JSON ''2024-01-02T00:00:00.000Z'' sample_question [] = Inr [?r]"
    by (simp add: saveQuestion_def statements_insert_def sample_question_def)
  from generate_hands_over_checked [where E = sample_env and b = 0 and k = 0
      and title = "''Two Sum''" and q = ?q and J = plain_JSON
      and now = "''2024-01-02T00:00:00.000Z''" and a = sample_question and tbl = "[]"
      and tbl' = "[?r]"] b s t
  have "?q ''title'' = Some (JStr ''Two Sum'') \<and> truthy (?q ''difficulty'')
       \<and> truthy (?q ''description'') \<and> truthy (?q ''solution_python'')
       \<and> isArray (?q ''topics'') \<and> isArray (?q ''step_by_step_explanation'')
       \<and> ?q ''pseudocode'' = None"
    and d: "q_difficulty sample_question \<in> {''Easy'', ''Medium'', ''Hard''}"
    by simp_all
  with b s show ?thesis by blast
qed















end
